theory Spec2Isabelle
  imports Main
begin

section \<open>Strings and characters\<close>

text \<open>
  Source text and tokens are Python \<open>str\<close> values, modelled as \<open>string\<close>. The model reads
  the text as ASCII: the only word characters (\<open>\w\<close>) are the ASCII letters, the ASCII
  digits and the underscore, which is what Python's \<open>re\<close> matches on ASCII text.
\<close>

definition is_digit :: "char \<Rightarrow> bool" where
  "is_digit c = (let n = (of_char c :: nat) in 48 \<le> n \<and> n \<le> 57)"

definition is_ident_start :: "char \<Rightarrow> bool" where
  \<comment> \<open>\<open>[A-Za-z_]\<close>\<close>
  "is_ident_start c =
     (let n = (of_char c :: nat) in (65 \<le> n \<and> n \<le> 90) \<or> (97 \<le> n \<and> n \<le> 122) \<or> n = 95)"

definition is_word :: "char \<Rightarrow> bool" where
  \<comment> \<open>\<open>\w\<close>\<close>
  "is_word c = (is_ident_start c \<or> is_digit c)"

definition is_punct :: "char \<Rightarrow> bool" where
  \<comment> \<open>\<open>[+\-*/%(){};=<>]\<close>\<close>
  "is_punct c = (c \<in> set ''+-*/%(){};=<>'')"

section \<open>Lexical analyzer\<close>

text \<open>
  \<open>tokenize\<close> is \<open>re.findall\<close> with the pattern
  \<open>[A-Za-z_]\w*|[0-9]+|==|<=|>=|!=|[+\-*/%(){};=<>]\<close>: at each position the alternatives
  are tried in order, the first that matches gives the token (each repetition is greedy),
  the scan goes on behind the token, and a character at which nothing matches is skipped.
\<close>

function tokenize :: "string \<Rightarrow> string list" where
  "tokenize [] = []"
| "tokenize (c # cs) =
     (if is_ident_start c then (c # takeWhile is_word cs) # tokenize (dropWhile is_word cs)
      else if is_digit c then (c # takeWhile is_digit cs) # tokenize (dropWhile is_digit cs)
      else if (c = CHR ''='' \<or> c = CHR ''<'' \<or> c = CHR ''>'' \<or> c = CHR ''!'')
              \<and> cs \<noteq> [] \<and> hd cs = CHR ''=''
           then [c, CHR ''=''] # tokenize (tl cs)
      else if is_punct c then [c] # tokenize cs
      else tokenize cs)"
  by pat_completeness auto
termination
proof (relation "measure length", goal_cases)
  case 1 show ?case by simp
next
  case (2 c cs) show ?case by (simp add: le_imp_less_Suc length_dropWhile_le)
next
  case (3 c cs) show ?case by (simp add: le_imp_less_Suc length_dropWhile_le)
next
  case (4 c cs) then show ?case by (cases cs) auto
next
  case (5 c cs) show ?case by simp
next
  case (6 c cs) show ?case by simp
qed

section \<open>Parser\<close>

datatype node = Num int | Var string | BinOp string node node

datatype stmt = Assign string node | Print node

text \<open>
  The exceptions the program can raise. \<open>SyntaxError\<close> carries its message.
  \<open>AttributeError\<close> is what Python raises for a method call on \<open>None\<close>.
\<close>

datatype pyerror = SyntaxError string | AttributeError | IndexError | ValueError

record parser =
  tokens :: "string list"
  pos :: nat

definition peek :: "parser \<Rightarrow> string option" where
  "peek p = (if pos p < length (tokens p) then Some (tokens p ! pos p) else None)"

definition quoted :: "string \<Rightarrow> string" where
  "quoted s = [CHR 0x27] @ s @ [CHR 0x27]"

definition str_opt :: "string option \<Rightarrow> string" where
  \<comment> \<open>how an f-string renders the result of \<open>peek\<close>\<close>
  "str_opt t = (case t of None \<Rightarrow> ''None'' | Some s \<Rightarrow> s)"

text \<open>
  \<open>eat value\<close>: \<open>not tok\<close> holds for \<open>None\<close> and for the empty string; \<open>value\<close> is
  tested for truth before it is compared.
\<close>

definition eat :: "string option \<Rightarrow> parser \<Rightarrow> pyerror + (string \<times> parser)" where
  "eat val p =
     (case peek p of
        None \<Rightarrow> Inl (SyntaxError ''Unexpected end of input'')
      | Some tok \<Rightarrow>
          if tok = [] then Inl (SyntaxError ''Unexpected end of input'')
          else if (case val of None \<Rightarrow> False | Some v \<Rightarrow> v \<noteq> [] \<and> tok \<noteq> v)
          then Inl (SyntaxError (''Expected '' @ quoted (the val) @ '', got '' @ quoted tok))
          else Inr (tok, p\<lparr>pos := pos p + 1\<rparr>))"

definition isdigit :: "string \<Rightarrow> bool" where
  \<comment> \<open>\<open>str.isdigit\<close> on ASCII text\<close>
  "isdigit s = (s \<noteq> [] \<and> (\<forall>c \<in> set s. is_digit c))"

definition int_of_str :: "string \<Rightarrow> int" where
  \<comment> \<open>\<open>int(tok)\<close> for a string of ASCII digits\<close>
  "int_of_str s = foldl (\<lambda>a c. 10 * a + (int (of_char c) - 48)) 0 s"

text \<open>
  The recursive-descent functions call each other and loop on the position they get
  back, so the model gives each call a bound on the depth of the calls below it:
  \<open>None\<close> is "the bound was too small", never a behaviour of the program. \<open>parse\<close>
  starts with a bound that is always enough (lemma \<open>parse_returns\<close>).
\<close>

definition bind_p ::
  "(pyerror + 'a) option \<Rightarrow> ('a \<Rightarrow> (pyerror + 'b) option) \<Rightarrow> (pyerror + 'b) option" where
  "bind_p m f = (case m of None \<Rightarrow> None | Some (Inl e) \<Rightarrow> Some (Inl e) | Some (Inr x) \<Rightarrow> f x)"

fun expr :: "nat \<Rightarrow> parser \<Rightarrow> (pyerror + (node \<times> parser)) option"
  and expr_loop :: "nat \<Rightarrow> node \<Rightarrow> parser \<Rightarrow> (pyerror + (node \<times> parser)) option"
  and "term" :: "nat \<Rightarrow> parser \<Rightarrow> (pyerror + (node \<times> parser)) option"
  and term_loop :: "nat \<Rightarrow> node \<Rightarrow> parser \<Rightarrow> (pyerror + (node \<times> parser)) option"
  and factor :: "nat \<Rightarrow> parser \<Rightarrow> (pyerror + (node \<times> parser)) option"
where
  "expr 0 p = None"
| "expr (Suc n) p = bind_p (term n p) (\<lambda>(node, p'). expr_loop n node p')"
| "expr_loop 0 node p = None"
| "expr_loop (Suc n) node p =
     (if peek p = Some ''+'' \<or> peek p = Some ''-''
      then bind_p (Some (eat None p)) (\<lambda>(op, p1).
           bind_p (term n p1) (\<lambda>(right, p2).
           expr_loop n (BinOp op node right) p2))
      else Some (Inr (node, p)))"
| "term 0 p = None"
| "term (Suc n) p = bind_p (factor n p) (\<lambda>(node, p'). term_loop n node p')"
| "term_loop 0 node p = None"
| "term_loop (Suc n) node p =
     (if peek p = Some ''*'' \<or> peek p = Some ''/''
      then bind_p (Some (eat None p)) (\<lambda>(op, p1).
           bind_p (factor n p1) (\<lambda>(right, p2).
           term_loop n (BinOp op node right) p2))
      else Some (Inr (node, p)))"
| "factor 0 p = None"
| "factor (Suc n) p =
     (case peek p of
        None \<Rightarrow> Some (Inl AttributeError)
      | Some tok \<Rightarrow>
          if isdigit tok then bind_p (Some (eat None p)) (\<lambda>(_, p1). Some (Inr (Num (int_of_str tok), p1)))
          else if tok \<noteq> [] \<and> is_ident_start (hd tok)
          then bind_p (Some (eat None p)) (\<lambda>(_, p1). Some (Inr (Var tok, p1)))
          else if tok = ''(''
          then bind_p (Some (eat (Some ''('') p)) (\<lambda>(_, p1).
               bind_p (expr n p1) (\<lambda>(node, p2).
               bind_p (Some (eat (Some '')'') p2)) (\<lambda>(_, p3).
               Some (Inr (node, p3)))))
          else Some (Inl (SyntaxError (''Unexpected factor: '' @ tok))))"

definition statement :: "nat \<Rightarrow> parser \<Rightarrow> (pyerror + (stmt \<times> parser)) option" where
  "statement n p =
     (if peek p = Some ''let''
      then bind_p (Some (eat (Some ''let'') p)) (\<lambda>(_, p1).
           bind_p (Some (eat None p1)) (\<lambda>(name, p2).
           bind_p (Some (eat (Some ''='') p2)) (\<lambda>(_, p3).
           bind_p (expr n p3) (\<lambda>(e, p4).
           bind_p (Some (eat (Some '';'') p4)) (\<lambda>(_, p5).
           Some (Inr (Assign name e, p5)))))))
      else if peek p = Some ''print''
      then bind_p (Some (eat (Some ''print'') p)) (\<lambda>(_, p1).
           bind_p (Some (eat (Some ''('') p1)) (\<lambda>(_, p2).
           bind_p (expr n p2) (\<lambda>(e, p3).
           bind_p (Some (eat (Some '')'') p3)) (\<lambda>(_, p4).
           bind_p (Some (eat (Some '';'') p4)) (\<lambda>(_, p5).
           Some (Inr (Print e, p5)))))))
      else Some (Inl (SyntaxError (''Unexpected token: '' @ str_opt (peek p)))))"

text \<open>\<open>while self.peek()\<close>: the loop stops at the end of the tokens and at an empty token.\<close>

fun parse_loop :: "nat \<Rightarrow> stmt list \<Rightarrow> parser \<Rightarrow> (pyerror + stmt list) option" where
  "parse_loop 0 ast p = None"
| "parse_loop (Suc n) ast p =
     (if peek p \<noteq> None \<and> peek p \<noteq> Some []
      then bind_p (statement n p) (\<lambda>(s, p'). parse_loop n (ast @ [s]) p')
      else Some (Inr ast))"

definition parse :: "string list \<Rightarrow> (pyerror + stmt list) option" where
  "parse toks = parse_loop (3 * length toks + 4) [] \<lparr>tokens = toks, pos = 0\<rparr>"

section \<open>Three address code\<close>

text \<open>\<open>str\<close> of a Python integer: decimal digits, with a minus sign when negative.\<close>

definition digit_char :: "nat \<Rightarrow> char" where
  "digit_char d = char_of (48 + d)"

fun str_nat :: "nat \<Rightarrow> string" where
  "str_nat n = (if n < 10 then [digit_char n] else str_nat (n div 10) @ [digit_char (n mod 10)])"

declare str_nat.simps [simp del]

definition str_int :: "int \<Rightarrow> string" where
  "str_int i = (if i < 0 then CHR ''-'' # str_nat (nat (- i)) else str_nat (nat i))"

text \<open>
  \<open>temp_count\<close> is a global of the module: it starts at 0 when the module is loaded and
  \<open>new_temp\<close> is all that writes it. The model passes it in and hands it back. The list
  \<open>code\<close>, which \<open>generate_TAC_expr\<close> appends to, is passed the same way.
\<close>

definition new_temp :: "nat \<Rightarrow> string \<times> nat" where
  "new_temp temp_count = (''t'' @ str_nat (temp_count + 1), temp_count + 1)"

fun generate_TAC_expr :: "node \<Rightarrow> string list \<times> nat \<Rightarrow> string \<times> string list \<times> nat" where
  "generate_TAC_expr (Num n) (code, tc) = (str_int n, code, tc)"
| "generate_TAC_expr (Var v) (code, tc) = (v, code, tc)"
| "generate_TAC_expr (BinOp op l r) (code, tc) =
     (case generate_TAC_expr l (code, tc) of (left, code1, tc1) \<Rightarrow>
      case generate_TAC_expr r (code1, tc1) of (right, code2, tc2) \<Rightarrow>
      case new_temp tc2 of (t, tc3) \<Rightarrow>
        (t, code2 @ [t @ '' = '' @ left @ '' '' @ op @ '' '' @ right], tc3))"

fun generate_TAC_loop :: "stmt list \<Rightarrow> string list \<times> nat \<Rightarrow> string list \<times> nat" where
  "generate_TAC_loop [] (code, tc) = (code, tc)"
| "generate_TAC_loop (Assign name e # ast) (code, tc) =
     (case generate_TAC_expr e (code, tc) of (val, code1, tc1) \<Rightarrow>
        generate_TAC_loop ast (code1 @ [name @ '' = '' @ val], tc1))"
| "generate_TAC_loop (Print e # ast) (code, tc) =
     (case generate_TAC_expr e (code, tc) of (val, code1, tc1) \<Rightarrow>
        generate_TAC_loop ast (code1 @ [''PRINT '' @ val], tc1))"

text \<open>\<open>generate_TAC ast temp_count\<close>: the instructions, and the counter after the call.\<close>

definition generate_TAC :: "stmt list \<Rightarrow> nat \<Rightarrow> string list \<times> nat" where
  "generate_TAC ast temp_count = generate_TAC_loop ast ([], temp_count)"

text \<open>The number of binary operations of a program, for the statements about the counter.\<close>

fun binops :: "node \<Rightarrow> nat" where
  "binops (Num n) = 0"
| "binops (Var v) = 0"
| "binops (BinOp op l r) = binops l + binops r + 1"

fun binops_stmt :: "stmt \<Rightarrow> nat" where
  "binops_stmt (Assign name e) = binops e"
| "binops_stmt (Print e) = binops e"

definition binops_ast :: "stmt list \<Rightarrow> nat" where
  "binops_ast ast = sum_list (map binops_stmt ast)"

section \<open>Assembly code\<close>

text \<open>
  \<open>str.split()\<close> cuts at runs of whitespace and gives no empty piece. The ASCII
  whitespace characters of Python are tab, line feed, vertical tab, form feed, carriage
  return, the four separators 28 to 31 and the space.
\<close>

definition is_space :: "char \<Rightarrow> bool" where
  "is_space c = (let n = (of_char c :: nat) in (9 \<le> n \<and> n \<le> 13) \<or> (28 \<le> n \<and> n \<le> 32))"

function split_ws :: "string \<Rightarrow> string list" where
  "split_ws [] = []"
| "split_ws (c # cs) =
     (if is_space c then split_ws cs
      else (c # takeWhile (\<lambda>x. \<not> is_space x) cs) # split_ws (dropWhile (\<lambda>x. \<not> is_space x) cs))"
  by pat_completeness auto
termination
proof (relation "measure length", goal_cases)
  case 1 show ?case by simp
next
  case (2 c cs) show ?case by simp
next
  case (3 c cs) show ?case by (simp add: le_imp_less_Suc length_dropWhile_le)
qed

fun join_sp :: "string list \<Rightarrow> string" where
  \<comment> \<open>\<open>" ".join(parts)\<close>\<close>
  "join_sp [] = []"
| "join_sp [w] = w"
| "join_sp (w # ws) = w @ '' '' @ join_sp ws"

text \<open>
  \<open>parts[1]\<close> raises IndexError on a line of one word; \<open>parts[0]\<close> is only read where
  \<open>"=" in parts\<close>, so where \<open>parts\<close> is not empty.
\<close>

fun generate_ASM_loop :: "string list \<Rightarrow> string list \<Rightarrow> pyerror + string list" where
  "generate_ASM_loop [] asm = Inr asm"
| "generate_ASM_loop (line # tac) asm =
     (let parts = split_ws line in
      if ''='' \<in> set parts \<and> ''PRINT'' \<notin> set parts
      then generate_ASM_loop tac (asm @ [''LOAD '' @ join_sp (drop 2 parts), ''STORE '' @ hd parts])
      else if ''PRINT'' \<in> set parts
      then (if length parts < 2 then Inl IndexError
            else generate_ASM_loop tac (asm @ [''LOAD '' @ parts ! 1, ''OUT'']))
      else generate_ASM_loop tac asm)"

definition generate_ASM :: "string list \<Rightarrow> pyerror + string list" where
  "generate_ASM tac = generate_ASM_loop tac []"

section \<open>Output simulation\<close>

subsection \<open>Python values and \<open>eval\<close>\<close>

text \<open>
  The loop at the end of \<open>main\<close> hands the right-hand side of a line to Python's
  \<open>eval\<close>, so what a line computes is a Python value.
  \<^item> \<open>PInt\<close>: an integer. \<open>PBool\<close>: \<open>True\<close> or \<open>False\<close>. \<open>PNone\<close>: \<open>None\<close>.
  \<^item> \<open>PFloat a b\<close>: the float that \<open>a / b\<close> gives for the integers \<open>a\<close> and \<open>b\<close>,
    the one nearest to the quotient.
  \<^item> \<open>PStr\<close>: a string.
  \<^item> \<open>PObj name\<close>: any other object (a builtin function, a type, a module). Such an
    object supports none of \<open>+ - * /\<close>.
\<close>

datatype pyval = PInt int | PBool bool | PFloat int int | PStr string | PNone | PObj string

text \<open>
  \<open>eval\<close> either returns a value or raises; the exceptions it raises here are
  NameError, TypeError, ZeroDivisionError, OverflowError and SyntaxError, and the program
  treats them all alike.
\<close>

datatype evaluated = Value pyval | Raised

text \<open>
  A right-hand side that \<open>generate_TAC\<close> writes is one operand, or two operands around
  one of \<open>+ - * /\<close>, the three separated by single spaces. \<open>py_eval\<close> models \<open>eval\<close> on
  these strings and on nothing else: its result is \<open>None\<close> where the model does not say
  what Python does. That is the case
  \<^item> for a string of another shape, and for an operand that is neither a decimal
    literal as \<open>str\<close> writes it nor an ASCII identifier;
  \<^item> for the names \<open>async\<close>, \<open>await\<close> and \<open>__debug__\<close>, which Python versions and
    options treat differently;
  \<^item> for arithmetic on a float or a string, and for a quotient of integers too large
    for a float or close to that.
\<close>

function split_sep :: "string \<Rightarrow> string \<Rightarrow> string \<Rightarrow> string list" where
  \<comment> \<open>\<open>s.split(sep)\<close> for a separator that is not empty; \<open>cur\<close> is the piece being read\<close>
  "split_sep sep cur [] = [cur]"
| "split_sep sep cur (c # cs) =
     (if sep \<noteq> [] \<and> take (length sep) (c # cs) = sep
      then cur # split_sep sep [] (drop (length sep) (c # cs))
      else split_sep sep (cur @ [c]) cs)"
  by pat_completeness auto
termination
proof (relation "measure (\<lambda>(sep, cur, s). length s)", goal_cases)
  case 1 show ?case by simp
next
  case (2 sep cur c cs) then show ?case by (cases sep) auto
next
  case (3 sep cur c cs) show ?case by simp
qed

definition is_identifier :: "string \<Rightarrow> bool" where
  "is_identifier w = (w \<noteq> [] \<and> is_ident_start (hd w) \<and> (\<forall>c \<in> set (tl w). is_word c))"

definition is_literal :: "string \<Rightarrow> bool" where
  \<comment> \<open>a decimal literal as \<open>str\<close> writes it: \<open>w = str(n)\<close> for some integer \<open>n\<close>\<close>
  "is_literal w =
     (if w \<noteq> [] \<and> hd w = CHR ''-''
      then isdigit (tl w) \<and> w = str_int (- int_of_str (tl w))
      else isdigit w \<and> w = str_int (int_of_str w))"

definition literal_value :: "string \<Rightarrow> int" where
  "literal_value w = (if w \<noteq> [] \<and> hd w = CHR ''-'' then - int_of_str (tl w) else int_of_str w)"

definition py_keywords :: "string list" where
  \<comment> \<open>the keywords that are not a value; one of them as an operand is a SyntaxError\<close>
  "py_keywords =
     [''and'', ''as'', ''assert'', ''break'', ''class'', ''continue'', ''def'', ''del'',
      ''elif'', ''else'', ''except'', ''finally'', ''for'', ''from'', ''global'', ''if'',
      ''import'', ''in'', ''is'', ''lambda'', ''nonlocal'', ''not'', ''or'', ''pass'',
      ''raise'', ''return'', ''try'', ''while'', ''with'', ''yield'']"

definition py_constants :: "string list" where
  "py_constants = [''True'', ''False'', ''None'']"

definition py_varying :: "string list" where
  "py_varying = [''async'', ''await'', ''__debug__'']"

definition is_operand :: "string \<Rightarrow> bool" where
  "is_operand w = ((is_literal w \<or> is_identifier w) \<and> w \<notin> set py_varying)"

text \<open>
  One operand. A literal and the three constant keywords are values; another keyword is
  a SyntaxError; a name is looked up in \<open>memory\<close> (the locals of the call) and then in
  \<open>builtins\<close>, the names Python resolves by itself: the builtins module and
  \<open>__builtins__\<close>. A name found in neither is a NameError. Which names the builtins are
  depends on the Python version, so \<open>builtins\<close> is a parameter.
\<close>

definition py_operand :: "(string \<rightharpoonup> pyval) \<Rightarrow> (string \<rightharpoonup> pyval) \<Rightarrow> string \<Rightarrow> evaluated" where
  "py_operand builtins memory w =
     (if is_literal w then Value (PInt (literal_value w))
      else if w = ''True'' then Value (PBool True)
      else if w = ''False'' then Value (PBool False)
      else if w = ''None'' then Value PNone
      else if w \<in> set py_keywords then Raised
      else (case memory w of
              Some v \<Rightarrow> Value v
            | None \<Rightarrow> (case builtins w of Some v \<Rightarrow> Value v | None \<Rightarrow> Raised)))"

definition as_int :: "pyval \<Rightarrow> int option" where
  \<comment> \<open>the integer an \<open>int\<close> or a \<open>bool\<close> counts as in arithmetic\<close>
  "as_int v = (case v of PInt n \<Rightarrow> Some n | PBool b \<Rightarrow> Some (if b then 1 else 0) | _ \<Rightarrow> None)"

definition py_arith :: "string \<Rightarrow> int \<Rightarrow> int \<Rightarrow> evaluated option" where
  "py_arith op a b =
     (if op = ''+'' then Some (Value (PInt (a + b)))
      else if op = ''-'' then Some (Value (PInt (a - b)))
      else if op = ''*'' then Some (Value (PInt (a * b)))
      else if b = 0 then Some Raised
      else if \<bar>a\<bar> < 2 ^ 1023 * \<bar>b\<bar> then Some (Value (PFloat a b))
      else None)"

definition py_binop :: "string \<Rightarrow> pyval \<Rightarrow> pyval \<Rightarrow> evaluated option" where
  "py_binop op x y =
     (case (as_int x, as_int y) of
        (Some a, Some b) \<Rightarrow> py_arith op a b
      | _ \<Rightarrow>
          (case (x, y) of
             (PFloat _ _, _) \<Rightarrow> None
           | (_, PFloat _ _) \<Rightarrow> None
           | (PStr _, _) \<Rightarrow> None
           | (_, PStr _) \<Rightarrow> None
           | _ \<Rightarrow> Some Raised))"

text \<open>
  \<open>not + b\<close> and \<open>not - b\<close> are Python expressions too: the negation of \<open>+b\<close> or \<open>-b\<close>.
\<close>

definition py_not_signed :: "string \<Rightarrow> pyval \<Rightarrow> evaluated option" where
  "py_not_signed op y =
     (case as_int y of
        Some b \<Rightarrow> Some (Value (PBool ((if op = ''-'' then - b else b) = 0)))
      | None \<Rightarrow>
          (case y of PFloat _ _ \<Rightarrow> None | PStr _ \<Rightarrow> None | _ \<Rightarrow> Some Raised))"

definition py_eval :: "(string \<rightharpoonup> pyval) \<Rightarrow> (string \<rightharpoonup> pyval) \<Rightarrow> string \<Rightarrow> evaluated option" where
  "py_eval builtins memory e =
     (case split_sep '' '' [] e of
        [a] \<Rightarrow> if is_operand a then Some (py_operand builtins memory a) else None
      | [a, op, b] \<Rightarrow>
          if \<not> (is_operand a \<and> is_operand b \<and> op \<in> set [''+'', ''-'', ''*'', ''/'']) then None
          else if a = ''not'' then
            (if op = ''+'' \<or> op = ''-''
             then (case py_operand builtins memory b of
                     Raised \<Rightarrow> Some Raised
                   | Value y \<Rightarrow> py_not_signed op y)
             else Some Raised)
          else if a \<in> set py_keywords \<or> b \<in> set py_keywords then Some Raised
          else (case py_operand builtins memory a of
                  Raised \<Rightarrow> Some Raised
                | Value x \<Rightarrow>
                    (case py_operand builtins memory b of
                       Raised \<Rightarrow> Some Raised
                     | Value y \<Rightarrow> py_binop op x y))
      | _ \<Rightarrow> None)"

subsection \<open>The loop over the three address code\<close>

fun contains :: "string \<Rightarrow> string \<Rightarrow> bool" where
  \<comment> \<open>\<open>sub in s\<close> for strings\<close>
  "contains sub [] = (sub = [])"
| "contains sub (c # cs) = (take (length sub) (c # cs) = sub \<or> contains sub cs)"

text \<open>
  \<open>run_loop\<close> is the loop under "Final Output Simulation" in \<open>main\<close>, with what \<open>print\<close>
  writes collected in a list. \<open>var, expr = stmt.split(" = ")\<close> raises ValueError unless
  the split gives two pieces; \<open>stmt.split()[1]\<close> raises IndexError on a line of one
  word; neither is inside the \<open>try\<close>. The bare \<open>except\<close> catches whatever \<open>eval\<close> raises.
  The result is \<open>None\<close> where \<open>py_eval\<close> is.
\<close>

type_synonym memory = "string \<rightharpoonup> pyval"

fun run_loop ::
  "(string \<rightharpoonup> pyval) \<Rightarrow> string list \<Rightarrow> memory \<times> pyval list \<Rightarrow> (pyerror + memory \<times> pyval list) option"
where
  "run_loop builtins [] (memory, out) = Some (Inr (memory, out))"
| "run_loop builtins (stmt # tac) (memory, out) =
     (if contains ''='' stmt \<and> \<not> contains ''PRINT'' stmt
      then (case split_sep '' = '' [] stmt of
              [var, e] \<Rightarrow>
                (case py_eval builtins memory e of
                   None \<Rightarrow> None
                 | Some (Value v) \<Rightarrow> run_loop builtins tac (memory(var \<mapsto> v), out)
                 | Some Raised \<Rightarrow> run_loop builtins tac (memory(var \<mapsto> PInt 0), out))
            | _ \<Rightarrow> Some (Inl ValueError))
      else if contains ''PRINT'' stmt
      then (let parts = split_ws stmt in
            if length parts < 2 then Some (Inl IndexError)
            else run_loop builtins tac
                   (memory, out @ [case memory (parts ! 1) of None \<Rightarrow> PInt 0 | Some v \<Rightarrow> v]))
      else run_loop builtins tac (memory, out))"

definition run :: "(string \<rightharpoonup> pyval) \<Rightarrow> string list \<Rightarrow> (pyerror + memory \<times> pyval list) option" where
  "run builtins tac = run_loop builtins tac (Map.empty, [])"

text \<open>
  The pipeline of \<open>main\<close> from the source text to the output: \<open>tokenize\<close>, \<open>parse\<close>,
  \<open>generate_TAC\<close> with the counter at 0 as it is when the module has just been loaded,
  and the loop. An exception of the parser ends the program.
\<close>

definition compile_tac :: "string \<Rightarrow> (pyerror + string list) option" where
  "compile_tac code =
     (case parse (tokenize code) of
        None \<Rightarrow> None
      | Some (Inl e) \<Rightarrow> Some (Inl e)
      | Some (Inr ast) \<Rightarrow> Some (Inr (fst (generate_TAC ast 0))))"

definition main :: "(string \<rightharpoonup> pyval) \<Rightarrow> string \<Rightarrow> (pyerror + memory \<times> pyval list) option" where
  "main builtins code =
     (case compile_tac code of
        None \<Rightarrow> None
      | Some (Inl e) \<Rightarrow> Some (Inl e)
      | Some (Inr tac) \<Rightarrow>
          (case generate_ASM tac of
             Inl e \<Rightarrow> Some (Inl e)
           | Inr asm \<Rightarrow> run builtins tac))"

text \<open>
  A namespace with two of Python's builtins, for the statements about given programs.
\<close>

definition few_builtins :: "string \<rightharpoonup> pyval" where
  "few_builtins = [''abs'' \<mapsto> PObj ''abs'', ''print'' \<mapsto> PObj ''print'']"

text \<open>
  The names that Python gives a meaning by itself, and a name that has no value at all:
  evaluating it is a NameError.
\<close>

definition python_knows :: "(string \<rightharpoonup> pyval) \<Rightarrow> string \<Rightarrow> bool" where
  "python_knows builtins w =
     (w \<in> set py_keywords \<or> w \<in> set py_constants \<or> w \<in> set py_varying \<or> builtins w \<noteq> None)"


section \<open>Closed forms of the generated code\<close>

text \<open>
  What \<open>generate_TAC_expr\<close> returns and appends, written without the state it threads:
  the operand text of an expression and the lines it emits when the counter is \<open>tc\<close>.
  Lemma \<open>generate_TAC_eq\<close> shows that they describe \<open>generate_TAC\<close>.
\<close>

fun expr_val :: "node \<Rightarrow> nat \<Rightarrow> string" where
  "expr_val (Num n) tc = str_int n"
| "expr_val (Var v) tc = v"
| "expr_val (BinOp op l r) tc = ''t'' @ str_nat (tc + binops l + binops r + 1)"

fun expr_lines :: "node \<Rightarrow> nat \<Rightarrow> string list" where
  "expr_lines (Num n) tc = []"
| "expr_lines (Var v) tc = []"
| "expr_lines (BinOp op l r) tc =
     expr_lines l tc @ expr_lines r (tc + binops l) @
     [expr_val (BinOp op l r) tc @ '' = '' @ expr_val l tc @ '' '' @ op @ '' '' @
      expr_val r (tc + binops l)]"

fun stmt_lines :: "stmt \<Rightarrow> nat \<Rightarrow> string list" where
  "stmt_lines (Assign name e) tc = expr_lines e tc @ [name @ '' = '' @ expr_val e tc]"
| "stmt_lines (Print e) tc = expr_lines e tc @ [''PRINT '' @ expr_val e tc]"

fun ast_lines :: "stmt list \<Rightarrow> nat \<Rightarrow> string list" where
  "ast_lines [] tc = []"
| "ast_lines (s # ast) tc = stmt_lines s tc @ ast_lines ast (tc + binops_stmt s)"

section \<open>Well-formed trees and lines\<close>

text \<open>
  What \<open>parse\<close> guarantees about a tree it returns for the tokens \<open>toks\<close>: a number is
  not negative, a variable is one of the tokens and starts as an identifier does, an
  operator is one of \<open>+ - * /\<close>; the name of an assignment is a token that is not empty.
\<close>

fun node_from :: "string list \<Rightarrow> node \<Rightarrow> bool" where
  "node_from toks (Num n) = (0 \<le> n)"
| "node_from toks (Var v) = (v \<in> set toks \<and> v \<noteq> [] \<and> is_ident_start (hd v))"
| "node_from toks (BinOp op l r) =
     (op \<in> set [''+'', ''-'', ''*'', ''/''] \<and> node_from toks l \<and> node_from toks r)"

fun stmt_from :: "string list \<Rightarrow> stmt \<Rightarrow> bool" where
  "stmt_from toks (Assign name e) = (name \<in> set toks \<and> name \<noteq> [] \<and> node_from toks e)"
| "stmt_from toks (Print e) = node_from toks e"

text \<open>A parsing function keeps the tokens and returns a tree over them.\<close>

definition keeps :: "parser \<Rightarrow> node \<times> parser \<Rightarrow> bool" where
  "keeps p r = (node_from (tokens p) (fst r) \<and> tokens (snd r) = tokens p)"

text \<open>
  What \<open>generate_ASM\<close> makes of one line: it looks at the words of the line, not at
  the kind of instruction the line was written for.
\<close>

definition asm_of_line :: "string \<Rightarrow> string list" where
  "asm_of_line line =
     (let parts = split_ws line in
      if ''PRINT'' \<in> set parts then [''LOAD '' @ parts ! 1, ''OUT'']
      else if ''='' \<in> set parts then [''LOAD '' @ join_sp (drop 2 parts), ''STORE '' @ hd parts]
      else [])"

text \<open>
  The one way \<open>generate_ASM\<close> can fail: \<open>parts[1]\<close> on a line whose only word is
  \<open>PRINT\<close>.
\<close>

definition line_ok :: "string \<Rightarrow> bool" where
  "line_ok line = (''PRINT'' \<in> set (split_ws line) \<longrightarrow> 2 \<le> length (split_ws line))"

section \<open>Programs of integers\<close>

text \<open>
  The shapes of the tokens that \<open>tokenize\<close> returns, and the variables and operators
  that occur in the expressions of a program.
\<close>

definition lex_token :: "string \<Rightarrow> bool" where
  "lex_token t =
     (is_identifier t \<or> isdigit t \<or> t \<in> set [''=='', ''<='', ''>='', ''!='']
      \<or> (length t = 1 \<and> is_punct (hd t)))"

fun vars :: "node \<Rightarrow> string set" where
  "vars (Num n) = {}"
| "vars (Var v) = {v}"
| "vars (BinOp op l r) = vars l \<union> vars r"

fun ops :: "node \<Rightarrow> string set" where
  "ops (Num n) = {}"
| "ops (Var v) = {}"
| "ops (BinOp op l r) = insert op (ops l \<union> ops r)"

fun stmt_expr :: "stmt \<Rightarrow> node" where
  "stmt_expr (Assign name e) = e"
| "stmt_expr (Print e) = e"

definition vars_ast :: "stmt list \<Rightarrow> string set" where
  "vars_ast ast = (\<Union>s \<in> set ast. vars (stmt_expr s))"

definition ops_ast :: "stmt list \<Rightarrow> string set" where
  "ops_ast ast = (\<Union>s \<in> set ast. ops (stmt_expr s))"

text \<open>
  An operand that evaluates to an integer or raises, whatever integers the memory holds:
  a literal, or an identifier that Python does not know. A tree and a line made of such
  operands and of the operators \<open>+ - *\<close>.
\<close>

definition int_operand :: "(string \<rightharpoonup> pyval) \<Rightarrow> string \<Rightarrow> bool" where
  "int_operand builtins a = (is_literal a \<or> (is_identifier a \<and> \<not> python_knows builtins a))"

fun int_node :: "(string \<rightharpoonup> pyval) \<Rightarrow> node \<Rightarrow> bool" where
  "int_node builtins (Num n) = (0 \<le> n)"
| "int_node builtins (Var v) = (is_identifier v \<and> \<not> python_knows builtins v)"
| "int_node builtins (BinOp op l r) =
     (op \<in> set [''+'', ''-'', ''*''] \<and> int_node builtins l \<and> int_node builtins r)"

fun int_stmt :: "(string \<rightharpoonup> pyval) \<Rightarrow> stmt \<Rightarrow> bool" where
  "int_stmt builtins (Assign name e) = (CHR '' '' \<notin> set name \<and> int_node builtins e)"
| "int_stmt builtins (Print e) = int_node builtins e"

definition int_rhs :: "(string \<rightharpoonup> pyval) \<Rightarrow> string \<Rightarrow> bool" where
  "int_rhs builtins r =
     (int_operand builtins r
      \<or> (\<exists>a op b. r = a @ '' '' @ op @ '' '' @ b \<and> int_operand builtins a
            \<and> int_operand builtins b \<and> op \<in> set [''+'', ''-'', ''*'']))"

definition int_line :: "(string \<rightharpoonup> pyval) \<Rightarrow> string \<Rightarrow> bool" where
  "int_line builtins line =
     ((\<exists>x r. line = x @ '' = '' @ r \<and> CHR '' '' \<notin> set x \<and> int_rhs builtins r)
      \<or> (\<exists>a. line = ''PRINT '' @ a \<and> int_operand builtins a))"

definition int_result :: "evaluated \<Rightarrow> bool" where
  "int_result r = (r = Raised \<or> (\<exists>n. r = Value (PInt n)))"

text \<open>The number of tokens that a parser has not read yet.\<close>

definition remaining :: "parser \<Rightarrow> nat" where
  "remaining p = length (tokens p) - pos p"

section \<open>What the parser returns\<close>

lemma bind_p_Inr:
  "bind_p m f = Some (Inr y) \<Longrightarrow> \<exists>x. m = Some (Inr x) \<and> f x = Some (Inr y)"
  by (auto simp: bind_p_def split: option.splits sum.splits)

lemma eat_Inr:
  assumes "eat v p = Inr (tok, p')"
  shows "tokens p' = tokens p" and "pos p' = pos p + 1" and "peek p = Some tok"
    and "tok \<noteq> []" and "tok \<in> set (tokens p)"
  using assms
  by (auto simp: eat_def peek_def split: option.splits if_splits)

lemma peek_in_tokens: "peek p = Some tok \<Longrightarrow> tok \<in> set (tokens p)"
  by (auto simp: peek_def split: if_splits)

lemma int_of_str_nonneg: "isdigit s \<Longrightarrow> 0 \<le> int_of_str s"
proof -
  have "0 \<le> a \<Longrightarrow> 0 \<le> foldl (\<lambda>a c. 10 * a + (int (of_char c) - 48)) a s"
    if "\<forall>c\<in>set s. is_digit c" for a
    using that by (induction s arbitrary: a) (auto simp: is_digit_def Let_def)
  then show "isdigit s \<Longrightarrow> 0 \<le> int_of_str s"
    by (simp add: isdigit_def int_of_str_def)
qed

lemma parser_from:
  "(\<forall>p r. expr n p = Some (Inr r) \<longrightarrow> keeps p r)
   \<and> (\<forall>node p r. expr_loop n node p = Some (Inr r) \<longrightarrow> node_from (tokens p) node \<longrightarrow> keeps p r)
   \<and> (\<forall>p r. term n p = Some (Inr r) \<longrightarrow> keeps p r)
   \<and> (\<forall>node p r. term_loop n node p = Some (Inr r) \<longrightarrow> node_from (tokens p) node \<longrightarrow> keeps p r)
   \<and> (\<forall>p r. factor n p = Some (Inr r) \<longrightarrow> keeps p r)"
proof (induction n)
  case 0
  show ?case by simp
next
  case (Suc n)
  then have E: "\<And>p r. expr n p = Some (Inr r) \<Longrightarrow> keeps p r"
    and EL: "\<And>node p r. expr_loop n node p = Some (Inr r) \<Longrightarrow> node_from (tokens p) node \<Longrightarrow> keeps p r"
    and T: "\<And>p r. term n p = Some (Inr r) \<Longrightarrow> keeps p r"
    and TL: "\<And>node p r. term_loop n node p = Some (Inr r) \<Longrightarrow> node_from (tokens p) node \<Longrightarrow> keeps p r"
    and F: "\<And>p r. factor n p = Some (Inr r) \<Longrightarrow> keeps p r"
    by blast+
  have e: "keeps p r" if "expr (Suc n) p = Some (Inr r)" for p r
  proof -
    from that obtain node p1 where 1: "term n p = Some (Inr (node, p1))"
      and 2: "expr_loop n node p1 = Some (Inr r)"
      by (auto dest!: bind_p_Inr)
    from T [OF 1] have k: "node_from (tokens p) node" "tokens p1 = tokens p" by (simp_all add: keeps_def)
    with EL [OF 2] show ?thesis by (simp add: keeps_def)
  qed
  have el: "keeps p r" if "expr_loop (Suc n) node p = Some (Inr r)" and nf: "node_from (tokens p) node" for node p r
  proof (cases "peek p = Some ''+'' \<or> peek p = Some ''-''")
    case True
    with that obtain op p1 right p2 where 0: "eat None p = Inr (op, p1)"
      and 1: "term n p1 = Some (Inr (right, p2))"
      and 2: "expr_loop n (BinOp op node right) p2 = Some (Inr r)"
      by (auto dest!: bind_p_Inr)
    from eat_Inr [OF 0] True have op: "op = ''+'' \<or> op = ''-''" and t1: "tokens p1 = tokens p" by auto
    from T [OF 1] t1 have k: "node_from (tokens p) right" "tokens p2 = tokens p" by (simp_all add: keeps_def)
    with op nf have "node_from (tokens p2) (BinOp op node right)" by auto
    from EL [OF 2 this] k show ?thesis by (simp add: keeps_def)
  next
    case False
    with that show ?thesis by (auto simp: keeps_def)
  qed
  have t: "keeps p r" if "term (Suc n) p = Some (Inr r)" for p r
  proof -
    from that obtain node p1 where 1: "factor n p = Some (Inr (node, p1))"
      and 2: "term_loop n node p1 = Some (Inr r)"
      by (auto dest!: bind_p_Inr)
    from F [OF 1] have k: "node_from (tokens p) node" "tokens p1 = tokens p" by (simp_all add: keeps_def)
    with TL [OF 2] show ?thesis by (simp add: keeps_def)
  qed
  have tl: "keeps p r" if "term_loop (Suc n) node p = Some (Inr r)" and nf: "node_from (tokens p) node" for node p r
  proof (cases "peek p = Some ''*'' \<or> peek p = Some ''/''")
    case True
    with that obtain op p1 right p2 where 0: "eat None p = Inr (op, p1)"
      and 1: "factor n p1 = Some (Inr (right, p2))"
      and 2: "term_loop n (BinOp op node right) p2 = Some (Inr r)"
      by (auto dest!: bind_p_Inr)
    from eat_Inr [OF 0] True have op: "op = ''*'' \<or> op = ''/''" and t1: "tokens p1 = tokens p" by auto
    from F [OF 1] t1 have k: "node_from (tokens p) right" "tokens p2 = tokens p" by (simp_all add: keeps_def)
    with op nf have "node_from (tokens p2) (BinOp op node right)" by auto
    from TL [OF 2 this] k show ?thesis by (simp add: keeps_def)
  next
    case False
    with that show ?thesis by (auto simp: keeps_def)
  qed
  have f: "keeps p r" if "factor (Suc n) p = Some (Inr r)" for p r
  proof (cases "peek p")
    case None
    with that show ?thesis by simp
  next
    case (Some tok)
    note tok = peek_in_tokens [OF Some]
    show ?thesis
    proof (cases "isdigit tok")
      case True
      with that Some obtain x p1 where "eat None p = Inr (x, p1)" and "r = (Num (int_of_str tok), p1)"
        by (auto dest!: bind_p_Inr)
      with eat_Inr(1) [of None p x p1] int_of_str_nonneg [OF True] show ?thesis
        by (simp add: keeps_def)
    next
      case nd: False
      show ?thesis
      proof (cases "tok \<noteq> [] \<and> is_ident_start (hd tok)")
        case True
        with that Some nd obtain x p1 where "eat None p = Inr (x, p1)" and "r = (Var tok, p1)"
          by (auto dest!: bind_p_Inr)
        with eat_Inr(1) [of None p x p1] True tok show ?thesis
          by (simp add: keeps_def)
      next
        case ni: False
        show ?thesis
        proof (cases "tok = ''(''")
          case True
          with that Some nd ni obtain x p1 node p2 y p3 where 0: "eat (Some ''('') p = Inr (x, p1)"
            and 1: "expr n p1 = Some (Inr (node, p2))"
            and 2: "eat (Some '')'') p2 = Inr (y, p3)" and 3: "r = (node, p3)"
            by (auto dest!: bind_p_Inr)
          from E [OF 1] eat_Inr(1) [OF 0] eat_Inr(1) [OF 2] 3 show ?thesis
            by (simp add: keeps_def)
        next
          case False
          with that Some nd ni show ?thesis by simp
        qed
      qed
    qed
  qed
  from e el t tl f show ?case by blast
qed

lemma expr_from:
  "expr n p = Some (Inr (e, p')) \<Longrightarrow> node_from (tokens p) e \<and> tokens p' = tokens p"
  using parser_from [of n] by (fastforce simp: keeps_def)

lemma statement_from:
  assumes "statement n p = Some (Inr (s, p'))"
  shows "stmt_from (tokens p) s \<and> tokens p' = tokens p"
proof (cases "peek p = Some ''let''")
  case True
  with assms obtain x p1 name p2 y p3 e p4 z p5 where
    0: "eat (Some ''let'') p = Inr (x, p1)" and 1: "eat None p1 = Inr (name, p2)"
    and 2: "eat (Some ''='') p2 = Inr (y, p3)" and 3: "expr n p3 = Some (Inr (e, p4))"
    and 4: "eat (Some '';'') p4 = Inr (z, p5)" and 5: "s = Assign name e" "p' = p5"
    by (auto simp: statement_def dest!: bind_p_Inr)
  from eat_Inr [OF 0] eat_Inr [OF 1] eat_Inr [OF 2] expr_from [OF 3] eat_Inr [OF 4] 5
  show ?thesis by simp
next
  case nl: False
  show ?thesis
  proof (cases "peek p = Some ''print''")
    case True
    with assms nl obtain x p1 y p2 e p3 z p4 w p5 where
      0: "eat (Some ''print'') p = Inr (x, p1)" and 1: "eat (Some ''('') p1 = Inr (y, p2)"
      and 2: "expr n p2 = Some (Inr (e, p3))" and 3: "eat (Some '')'') p3 = Inr (z, p4)"
      and 4: "eat (Some '';'') p4 = Inr (w, p5)" and 5: "s = Print e" "p' = p5"
      by (auto simp: statement_def dest!: bind_p_Inr)
    from eat_Inr [OF 0] eat_Inr [OF 1] expr_from [OF 2] eat_Inr [OF 3] eat_Inr [OF 4] 5
    show ?thesis by simp
  next
    case False
    with assms nl show ?thesis by (simp add: statement_def)
  qed
qed

lemma parse_loop_from:
  "parse_loop n ast p = Some (Inr ast') \<Longrightarrow> \<forall>s \<in> set ast. stmt_from (tokens p) s
   \<Longrightarrow> \<forall>s \<in> set ast'. stmt_from (tokens p) s"
proof (induction n arbitrary: ast p)
  case 0
  then show ?case by simp
next
  case (Suc n)
  show ?case
  proof (cases "peek p \<noteq> None \<and> peek p \<noteq> Some []")
    case True
    with Suc.prems(1) obtain s p1 where 1: "statement n p = Some (Inr (s, p1))"
      and 2: "parse_loop n (ast @ [s]) p1 = Some (Inr ast')"
      by (auto dest!: bind_p_Inr)
    from statement_from [OF 1] have s: "stmt_from (tokens p) s" and t: "tokens p1 = tokens p" by simp_all
    from s Suc.prems(2) t have "\<forall>s \<in> set (ast @ [s]). stmt_from (tokens p1) s" by simp
    from Suc.IH [OF 2 this] t show ?thesis by simp
  next
    case False
    with Suc.prems show ?thesis by auto
  qed
qed

lemma parse_from: "parse toks = Some (Inr ast) \<Longrightarrow> s \<in> set ast \<Longrightarrow> stmt_from toks s"
  using parse_loop_from [of "3 * length toks + 4" "[]" "\<lparr>tokens = toks, pos = 0\<rparr>" ast]
  by (simp add: parse_def)

section \<open>The parser always returns\<close>

lemma eat_remaining: "eat v p = Inr (tok, p') \<Longrightarrow> remaining p' < remaining p"
  by (auto simp: eat_def peek_def remaining_def split: option.splits if_splits)

lemma parser_advances:
  "(\<forall>p r. expr n p = Some (Inr r) \<longrightarrow> remaining (snd r) < remaining p)
   \<and> (\<forall>node p r. expr_loop n node p = Some (Inr r) \<longrightarrow> remaining (snd r) \<le> remaining p)
   \<and> (\<forall>p r. term n p = Some (Inr r) \<longrightarrow> remaining (snd r) < remaining p)
   \<and> (\<forall>node p r. term_loop n node p = Some (Inr r) \<longrightarrow> remaining (snd r) \<le> remaining p)
   \<and> (\<forall>p r. factor n p = Some (Inr r) \<longrightarrow> remaining (snd r) < remaining p)"
proof (induction n)
  case 0
  show ?case by simp
next
  case (Suc n)
  then have E: "\<And>p r. expr n p = Some (Inr r) \<Longrightarrow> remaining (snd r) < remaining p"
    and EL: "\<And>node p r. expr_loop n node p = Some (Inr r) \<Longrightarrow> remaining (snd r) \<le> remaining p"
    and T: "\<And>p r. term n p = Some (Inr r) \<Longrightarrow> remaining (snd r) < remaining p"
    and TL: "\<And>node p r. term_loop n node p = Some (Inr r) \<Longrightarrow> remaining (snd r) \<le> remaining p"
    and F: "\<And>p r. factor n p = Some (Inr r) \<Longrightarrow> remaining (snd r) < remaining p"
    by blast+
  have e: "remaining (snd r) < remaining p" if "expr (Suc n) p = Some (Inr r)" for p r
  proof -
    from that obtain node p1 where 1: "term n p = Some (Inr (node, p1))"
      and 2: "expr_loop n node p1 = Some (Inr r)"
      by (auto dest!: bind_p_Inr)
    from T [OF 1] EL [OF 2] show ?thesis by simp
  qed
  have el: "remaining (snd r) \<le> remaining p" if "expr_loop (Suc n) node p = Some (Inr r)" for node p r
  proof (cases "peek p = Some ''+'' \<or> peek p = Some ''-''")
    case True
    with that obtain op p1 right p2 where 0: "eat None p = Inr (op, p1)"
      and 1: "term n p1 = Some (Inr (right, p2))"
      and 2: "expr_loop n (BinOp op node right) p2 = Some (Inr r)"
      by (auto dest!: bind_p_Inr)
    from eat_remaining [OF 0] T [OF 1] EL [OF 2] show ?thesis by simp
  next
    case False
    with that show ?thesis by auto
  qed
  have t: "remaining (snd r) < remaining p" if "term (Suc n) p = Some (Inr r)" for p r
  proof -
    from that obtain node p1 where 1: "factor n p = Some (Inr (node, p1))"
      and 2: "term_loop n node p1 = Some (Inr r)"
      by (auto dest!: bind_p_Inr)
    from F [OF 1] TL [OF 2] show ?thesis by simp
  qed
  have tl: "remaining (snd r) \<le> remaining p" if "term_loop (Suc n) node p = Some (Inr r)" for node p r
  proof (cases "peek p = Some ''*'' \<or> peek p = Some ''/''")
    case True
    with that obtain op p1 right p2 where 0: "eat None p = Inr (op, p1)"
      and 1: "factor n p1 = Some (Inr (right, p2))"
      and 2: "term_loop n (BinOp op node right) p2 = Some (Inr r)"
      by (auto dest!: bind_p_Inr)
    from eat_remaining [OF 0] F [OF 1] TL [OF 2] show ?thesis by simp
  next
    case False
    with that show ?thesis by auto
  qed
  have f: "remaining (snd r) < remaining p" if "factor (Suc n) p = Some (Inr r)" for p r
  proof (cases "peek p")
    case None
    with that show ?thesis by simp
  next
    case (Some tok)
    show ?thesis
    proof (cases "isdigit tok")
      case True
      with that Some obtain x p1 where "eat None p = Inr (x, p1)" and "r = (Num (int_of_str tok), p1)"
        by (auto dest!: bind_p_Inr)
      with eat_remaining [of None p x p1] show ?thesis by simp
    next
      case nd: False
      show ?thesis
      proof (cases "tok \<noteq> [] \<and> is_ident_start (hd tok)")
        case True
        with that Some nd obtain x p1 where "eat None p = Inr (x, p1)" and "r = (Var tok, p1)"
          by (auto dest!: bind_p_Inr)
        with eat_remaining [of None p x p1] show ?thesis by simp
      next
        case ni: False
        show ?thesis
        proof (cases "tok = ''(''")
          case True
          with that Some nd ni obtain x p1 node p2 y p3 where 0: "eat (Some ''('') p = Inr (x, p1)"
            and 1: "expr n p1 = Some (Inr (node, p2))"
            and 2: "eat (Some '')'') p2 = Inr (y, p3)" and 3: "r = (node, p3)"
            by (auto dest!: bind_p_Inr)
          from eat_remaining [OF 0] E [OF 1] eat_remaining [OF 2] 3 show ?thesis by simp
        next
          case False
          with that Some nd ni show ?thesis by simp
        qed
      qed
    qed
  qed
  from e el t tl f show ?case by blast
qed

lemma bind_p_returns:
  assumes "m \<noteq> None" and "\<And>x. m = Some (Inr x) \<Longrightarrow> f x \<noteq> None"
  shows "bind_p m f \<noteq> None"
  using assms by (auto simp: bind_p_def split: option.splits sum.splits)

lemma expr_advances: "expr n p = Some (Inr (e, p')) \<Longrightarrow> remaining p' < remaining p"
  using parser_advances [of n] by fastforce

lemma expr_loop_advances: "expr_loop n node p = Some (Inr (e, p')) \<Longrightarrow> remaining p' \<le> remaining p"
  using parser_advances [of n] by fastforce

lemma term_advances: "term n p = Some (Inr (e, p')) \<Longrightarrow> remaining p' < remaining p"
  using parser_advances [of n] by fastforce

lemma term_loop_advances: "term_loop n node p = Some (Inr (e, p')) \<Longrightarrow> remaining p' \<le> remaining p"
  using parser_advances [of n] by fastforce

lemma factor_advances: "factor n p = Some (Inr (e, p')) \<Longrightarrow> remaining p' < remaining p"
  using parser_advances [of n] by fastforce

lemma parser_returns:
  "(\<forall>p. 3 * remaining p + 3 \<le> n \<longrightarrow> expr n p \<noteq> None)
   \<and> (\<forall>node p. 3 * remaining p + 2 \<le> n \<longrightarrow> expr_loop n node p \<noteq> None)
   \<and> (\<forall>p. 3 * remaining p + 2 \<le> n \<longrightarrow> term n p \<noteq> None)
   \<and> (\<forall>node p. 3 * remaining p + 1 \<le> n \<longrightarrow> term_loop n node p \<noteq> None)
   \<and> (\<forall>p. 3 * remaining p + 1 \<le> n \<longrightarrow> factor n p \<noteq> None)"
proof (induction n)
  case 0
  show ?case by simp
next
  case (Suc n)
  then have E: "\<And>p. 3 * remaining p + 3 \<le> n \<Longrightarrow> expr n p \<noteq> None"
    and EL: "\<And>node p. 3 * remaining p + 2 \<le> n \<Longrightarrow> expr_loop n node p \<noteq> None"
    and T: "\<And>p. 3 * remaining p + 2 \<le> n \<Longrightarrow> term n p \<noteq> None"
    and TL: "\<And>node p. 3 * remaining p + 1 \<le> n \<Longrightarrow> term_loop n node p \<noteq> None"
    and F: "\<And>p. 3 * remaining p + 1 \<le> n \<Longrightarrow> factor n p \<noteq> None"
    by blast+
  have e: "expr (Suc n) p \<noteq> None" if b: "3 * remaining p + 3 \<le> Suc n" for p
  proof -
    have "bind_p (term n p) (\<lambda>(node, p'). expr_loop n node p') \<noteq> None"
    proof (rule bind_p_returns)
      show "term n p \<noteq> None" using b by (intro T) simp
      fix x assume "term n p = Some (Inr x)"
      then have "remaining (snd x) < remaining p" using term_advances [of n p "fst x" "snd x"] by simp
      with b have "expr_loop n (fst x) (snd x) \<noteq> None" by (intro EL) simp
      then show "(case x of (node, p') \<Rightarrow> expr_loop n node p') \<noteq> None" by (simp add: case_prod_beta)
    qed
    then show ?thesis by simp
  qed
  have el: "expr_loop (Suc n) node p \<noteq> None" if b: "3 * remaining p + 2 \<le> Suc n" for node p
  proof (cases "peek p = Some ''+'' \<or> peek p = Some ''-''")
    case True
    have "bind_p (Some (eat None p)) (\<lambda>(op, p1).
           bind_p (term n p1) (\<lambda>(right, p2).
           expr_loop n (BinOp op node right) p2)) \<noteq> None"
    proof (rule bind_p_returns)
      show "Some (eat None p) \<noteq> None" by simp
      fix x assume "Some (eat None p) = Some (Inr x)"
      then have r1: "remaining (snd x) < remaining p" using eat_remaining [of None p "fst x" "snd x"] by simp
      have "bind_p (term n (snd x)) (\<lambda>(right, p2). expr_loop n (BinOp (fst x) node right) p2) \<noteq> None"
      proof (rule bind_p_returns)
        show "term n (snd x) \<noteq> None" using b r1 by (intro T) simp
        fix y assume "term n (snd x) = Some (Inr y)"
        then have "remaining (snd y) < remaining (snd x)"
          using term_advances [of n "snd x" "fst y" "snd y"] by simp
        with b r1 have "expr_loop n (BinOp (fst x) node (fst y)) (snd y) \<noteq> None" by (intro EL) simp
        then show "(case y of (right, p2) \<Rightarrow> expr_loop n (BinOp (fst x) node right) p2) \<noteq> None"
          by (simp add: case_prod_beta)
      qed
      then show "(case x of (op, p1) \<Rightarrow>
           bind_p (term n p1) (\<lambda>(right, p2). expr_loop n (BinOp op node right) p2)) \<noteq> None"
        by (simp add: case_prod_beta)
    qed
    with True show ?thesis by simp
  next
    case False
    then show ?thesis by simp
  qed
  have t: "term (Suc n) p \<noteq> None" if b: "3 * remaining p + 2 \<le> Suc n" for p
  proof -
    have "bind_p (factor n p) (\<lambda>(node, p'). term_loop n node p') \<noteq> None"
    proof (rule bind_p_returns)
      show "factor n p \<noteq> None" using b by (intro F) simp
      fix x assume "factor n p = Some (Inr x)"
      then have "remaining (snd x) < remaining p" using factor_advances [of n p "fst x" "snd x"] by simp
      with b have "term_loop n (fst x) (snd x) \<noteq> None" by (intro TL) simp
      then show "(case x of (node, p') \<Rightarrow> term_loop n node p') \<noteq> None" by (simp add: case_prod_beta)
    qed
    then show ?thesis by simp
  qed
  have tl: "term_loop (Suc n) node p \<noteq> None" if b: "3 * remaining p + 1 \<le> Suc n" for node p
  proof (cases "peek p = Some ''*'' \<or> peek p = Some ''/''")
    case True
    have "bind_p (Some (eat None p)) (\<lambda>(op, p1).
           bind_p (factor n p1) (\<lambda>(right, p2).
           term_loop n (BinOp op node right) p2)) \<noteq> None"
    proof (rule bind_p_returns)
      show "Some (eat None p) \<noteq> None" by simp
      fix x assume "Some (eat None p) = Some (Inr x)"
      then have r1: "remaining (snd x) < remaining p" using eat_remaining [of None p "fst x" "snd x"] by simp
      have "bind_p (factor n (snd x)) (\<lambda>(right, p2). term_loop n (BinOp (fst x) node right) p2) \<noteq> None"
      proof (rule bind_p_returns)
        show "factor n (snd x) \<noteq> None" using b r1 by (intro F) simp
        fix y assume "factor n (snd x) = Some (Inr y)"
        then have "remaining (snd y) < remaining (snd x)"
          using factor_advances [of n "snd x" "fst y" "snd y"] by simp
        with b r1 have "term_loop n (BinOp (fst x) node (fst y)) (snd y) \<noteq> None" by (intro TL) simp
        then show "(case y of (right, p2) \<Rightarrow> term_loop n (BinOp (fst x) node right) p2) \<noteq> None"
          by (simp add: case_prod_beta)
      qed
      then show "(case x of (op, p1) \<Rightarrow>
           bind_p (factor n p1) (\<lambda>(right, p2). term_loop n (BinOp op node right) p2)) \<noteq> None"
        by (simp add: case_prod_beta)
    qed
    with True show ?thesis by simp
  next
    case False
    then show ?thesis by simp
  qed
  have f: "factor (Suc n) p \<noteq> None" if b: "3 * remaining p + 1 \<le> Suc n" for p
  proof (cases "peek p")
    case None
    then show ?thesis by simp
  next
    case (Some tok)
    have paren: "bind_p (Some (eat (Some ''('') p)) (\<lambda>(_, p1).
               bind_p (expr n p1) (\<lambda>(node, p2).
               bind_p (Some (eat (Some '')'') p2)) (\<lambda>(_, p3).
               Some (Inr (node, p3))))) \<noteq> None"
    proof (rule bind_p_returns)
      show "Some (eat (Some ''('') p) \<noteq> None" by simp
      fix x assume "Some (eat (Some ''('') p) = Some (Inr x)"
      then have r1: "remaining (snd x) < remaining p"
        using eat_remaining [of "Some ''(''" p "fst x" "snd x"] by simp
      have "bind_p (expr n (snd x)) (\<lambda>(node, p2).
               bind_p (Some (eat (Some '')'') p2)) (\<lambda>(_, p3). Some (Inr (node, p3)))) \<noteq> None"
      proof (rule bind_p_returns)
        show "expr n (snd x) \<noteq> None" using b r1 by (intro E) simp
        fix y assume "expr n (snd x) = Some (Inr y)"
        show "(case y of (node, p2) \<Rightarrow>
               bind_p (Some (eat (Some '')'') p2)) (\<lambda>(_, p3). Some (Inr (node, p3)))) \<noteq> None"
          by (auto simp: bind_p_def split: prod.splits sum.splits)
      qed
      then show "(case x of (_, p1) \<Rightarrow>
               bind_p (expr n p1) (\<lambda>(node, p2).
               bind_p (Some (eat (Some '')'') p2)) (\<lambda>(_, p3). Some (Inr (node, p3))))) \<noteq> None"
        by (simp add: case_prod_beta)
    qed
    show ?thesis using Some paren
      by (auto simp: bind_p_def split: prod.splits sum.splits)
  qed
  from e el t tl f show ?case by blast
qed

lemma expr_returns: "3 * remaining p + 3 \<le> n \<Longrightarrow> expr n p \<noteq> None"
  using parser_returns [of n] by blast

lemma statement_advances:
  assumes "statement n p = Some (Inr (s, p'))"
  shows "remaining p' < remaining p"
proof (cases "peek p = Some ''let''")
  case True
  with assms obtain x p1 name p2 y p3 e p4 z p5 where
    0: "eat (Some ''let'') p = Inr (x, p1)" and 1: "eat None p1 = Inr (name, p2)"
    and 2: "eat (Some ''='') p2 = Inr (y, p3)" and 3: "expr n p3 = Some (Inr (e, p4))"
    and 4: "eat (Some '';'') p4 = Inr (z, p5)" and 5: "p' = p5"
    by (auto simp: statement_def dest!: bind_p_Inr)
  from eat_remaining [OF 0] eat_remaining [OF 1] eat_remaining [OF 2] expr_advances [OF 3]
    eat_remaining [OF 4] 5
  show ?thesis by simp
next
  case nl: False
  show ?thesis
  proof (cases "peek p = Some ''print''")
    case True
    with assms nl obtain x p1 y p2 e p3 z p4 w p5 where
      0: "eat (Some ''print'') p = Inr (x, p1)" and 1: "eat (Some ''('') p1 = Inr (y, p2)"
      and 2: "expr n p2 = Some (Inr (e, p3))" and 3: "eat (Some '')'') p3 = Inr (z, p4)"
      and 4: "eat (Some '';'') p4 = Inr (w, p5)" and 5: "p' = p5"
      by (auto simp: statement_def dest!: bind_p_Inr)
    from eat_remaining [OF 0] eat_remaining [OF 1] expr_advances [OF 2] eat_remaining [OF 3]
      eat_remaining [OF 4] 5
    show ?thesis by simp
  next
    case False
    with assms nl show ?thesis by (simp add: statement_def)
  qed
qed

lemma statement_returns:
  assumes b: "3 * remaining p + 3 \<le> n"
  shows "statement n p \<noteq> None"
proof -
  have ex: "expr n q \<noteq> None" if "remaining q \<le> remaining p" for q
    using that b by (intro expr_returns) simp
  have tail: "bind_p (expr n q) (\<lambda>(e, p4). bind_p (Some (eat (Some t) p4)) (\<lambda>(_, p5). Some (g e p5))) \<noteq> None"
    if "remaining q \<le> remaining p" for q t and g :: "node \<Rightarrow> parser \<Rightarrow> pyerror + stmt \<times> parser"
  proof (rule bind_p_returns)
    show "expr n q \<noteq> None" using that by (rule ex)
    fix x assume "expr n q = Some (Inr x)"
    show "(case x of (e, p4) \<Rightarrow> bind_p (Some (eat (Some t) p4)) (\<lambda>(_, p5). Some (g e p5))) \<noteq> None"
      by (auto simp: bind_p_def split: prod.splits sum.splits)
  qed
  have tail2: "bind_p (expr n q) (\<lambda>(e, p3).
           bind_p (Some (eat (Some t) p3)) (\<lambda>(_, p4).
           bind_p (Some (eat (Some u) p4)) (\<lambda>(_, p5). Some (g e p5)))) \<noteq> None"
    if "remaining q \<le> remaining p" for q t u and g :: "node \<Rightarrow> parser \<Rightarrow> pyerror + stmt \<times> parser"
  proof (rule bind_p_returns)
    show "expr n q \<noteq> None" using that by (rule ex)
    fix x assume "expr n q = Some (Inr x)"
    show "(case x of (e, p3) \<Rightarrow>
           bind_p (Some (eat (Some t) p3)) (\<lambda>(_, p4).
           bind_p (Some (eat (Some u) p4)) (\<lambda>(_, p5). Some (g e p5)))) \<noteq> None"
      by (auto simp: bind_p_def split: prod.splits sum.splits)
  qed
  show ?thesis
  proof (cases "peek p = Some ''let''")
    case True
    have "bind_p (Some (eat (Some ''let'') p)) (\<lambda>(_, p1).
           bind_p (Some (eat None p1)) (\<lambda>(name, p2).
           bind_p (Some (eat (Some ''='') p2)) (\<lambda>(_, p3).
           bind_p (expr n p3) (\<lambda>(e, p4).
           bind_p (Some (eat (Some '';'') p4)) (\<lambda>(_, p5).
           Some (Inr (Assign name e, p5))))))) \<noteq> None"
    proof (rule bind_p_returns)
      show "Some (eat (Some ''let'') p) \<noteq> None" by simp
      fix x assume "Some (eat (Some ''let'') p) = Some (Inr x)"
      then have r1: "remaining (snd x) < remaining p"
        using eat_remaining [of "Some ''let''" p "fst x" "snd x"] by simp
      have "bind_p (Some (eat None (snd x))) (\<lambda>(name, p2).
           bind_p (Some (eat (Some ''='') p2)) (\<lambda>(_, p3).
           bind_p (expr n p3) (\<lambda>(e, p4).
           bind_p (Some (eat (Some '';'') p4)) (\<lambda>(_, p5).
           Some (Inr (Assign name e, p5)))))) \<noteq> None"
      proof (rule bind_p_returns)
        show "Some (eat None (snd x)) \<noteq> None" by simp
        fix y assume "Some (eat None (snd x)) = Some (Inr y)"
        then have r2: "remaining (snd y) < remaining (snd x)"
          using eat_remaining [of None "snd x" "fst y" "snd y"] by simp
        have "bind_p (Some (eat (Some ''='') (snd y))) (\<lambda>(_, p3).
           bind_p (expr n p3) (\<lambda>(e, p4).
           bind_p (Some (eat (Some '';'') p4)) (\<lambda>(_, p5).
           Some (Inr (Assign (fst y) e, p5))))) \<noteq> None"
        proof (rule bind_p_returns)
          show "Some (eat (Some ''='') (snd y)) \<noteq> None" by simp
          fix z assume "Some (eat (Some ''='') (snd y)) = Some (Inr z)"
          then have "remaining (snd z) < remaining (snd y)"
            using eat_remaining [of "Some ''=''" "snd y" "fst z" "snd z"] by simp
          with r1 r2 have "remaining (snd z) \<le> remaining p" by simp
          from tail [OF this, of "'';''" "\<lambda>e p5. Inr (Assign (fst y) e, p5)"]
          show "(case z of (_, p3) \<Rightarrow>
             bind_p (expr n p3) (\<lambda>(e, p4).
             bind_p (Some (eat (Some '';'') p4)) (\<lambda>(_, p5).
             Some (Inr (Assign (fst y) e, p5))))) \<noteq> None"
            by (simp add: case_prod_beta)
        qed
        then show "(case y of (name, p2) \<Rightarrow>
           bind_p (Some (eat (Some ''='') p2)) (\<lambda>(_, p3).
           bind_p (expr n p3) (\<lambda>(e, p4).
           bind_p (Some (eat (Some '';'') p4)) (\<lambda>(_, p5).
           Some (Inr (Assign name e, p5)))))) \<noteq> None"
          by (simp add: case_prod_beta)
      qed
      then show "(case x of (_, p1) \<Rightarrow>
           bind_p (Some (eat None p1)) (\<lambda>(name, p2).
           bind_p (Some (eat (Some ''='') p2)) (\<lambda>(_, p3).
           bind_p (expr n p3) (\<lambda>(e, p4).
           bind_p (Some (eat (Some '';'') p4)) (\<lambda>(_, p5).
           Some (Inr (Assign name e, p5))))))) \<noteq> None"
        by (simp add: case_prod_beta)
    qed
    with True show ?thesis by (simp add: statement_def)
  next
    case nl: False
    show ?thesis
    proof (cases "peek p = Some ''print''")
      case True
      have "bind_p (Some (eat (Some ''print'') p)) (\<lambda>(_, p1).
           bind_p (Some (eat (Some ''('') p1)) (\<lambda>(_, p2).
           bind_p (expr n p2) (\<lambda>(e, p3).
           bind_p (Some (eat (Some '')'') p3)) (\<lambda>(_, p4).
           bind_p (Some (eat (Some '';'') p4)) (\<lambda>(_, p5).
           Some (Inr (Print e, p5))))))) \<noteq> None"
      proof (rule bind_p_returns)
        show "Some (eat (Some ''print'') p) \<noteq> None" by simp
        fix x assume "Some (eat (Some ''print'') p) = Some (Inr x)"
        then have r1: "remaining (snd x) < remaining p"
          using eat_remaining [of "Some ''print''" p "fst x" "snd x"] by simp
        have "bind_p (Some (eat (Some ''('') (snd x))) (\<lambda>(_, p2).
           bind_p (expr n p2) (\<lambda>(e, p3).
           bind_p (Some (eat (Some '')'') p3)) (\<lambda>(_, p4).
           bind_p (Some (eat (Some '';'') p4)) (\<lambda>(_, p5).
           Some (Inr (Print e, p5)))))) \<noteq> None"
        proof (rule bind_p_returns)
          show "Some (eat (Some ''('') (snd x)) \<noteq> None" by simp
          fix y assume "Some (eat (Some ''('') (snd x)) = Some (Inr y)"
          then have "remaining (snd y) < remaining (snd x)"
            using eat_remaining [of "Some ''(''" "snd x" "fst y" "snd y"] by simp
          with r1 have "remaining (snd y) \<le> remaining p" by simp
          from tail2 [OF this, of "'')''" "'';''" "\<lambda>e p5. Inr (Print e, p5)"]
          show "(case y of (_, p2) \<Rightarrow>
             bind_p (expr n p2) (\<lambda>(e, p3).
             bind_p (Some (eat (Some '')'') p3)) (\<lambda>(_, p4).
             bind_p (Some (eat (Some '';'') p4)) (\<lambda>(_, p5).
             Some (Inr (Print e, p5)))))) \<noteq> None"
            by (simp add: case_prod_beta)
        qed
        then show "(case x of (_, p1) \<Rightarrow>
           bind_p (Some (eat (Some ''('') p1)) (\<lambda>(_, p2).
           bind_p (expr n p2) (\<lambda>(e, p3).
           bind_p (Some (eat (Some '')'') p3)) (\<lambda>(_, p4).
           bind_p (Some (eat (Some '';'') p4)) (\<lambda>(_, p5).
           Some (Inr (Print e, p5))))))) \<noteq> None"
          by (simp add: case_prod_beta)
      qed
      with nl True show ?thesis by (simp add: statement_def)
    next
      case False
      with nl show ?thesis by (simp add: statement_def)
    qed
  qed
qed

lemma parse_loop_returns: "3 * remaining p + 4 \<le> n \<Longrightarrow> parse_loop n ast p \<noteq> None"
proof (induction n arbitrary: ast p)
  case 0
  then show ?case by simp
next
  case (Suc n)
  show ?case
  proof (cases "peek p \<noteq> None \<and> peek p \<noteq> Some []")
    case True
    have "bind_p (statement n p) (\<lambda>(s, p'). parse_loop n (ast @ [s]) p') \<noteq> None"
    proof (rule bind_p_returns)
      show "statement n p \<noteq> None" using Suc.prems by (intro statement_returns) simp
      fix x assume "statement n p = Some (Inr x)"
      then have "remaining (snd x) < remaining p"
        using statement_advances [of n p "fst x" "snd x"] by simp
      with Suc.prems have "parse_loop n (ast @ [fst x]) (snd x) \<noteq> None" by (intro Suc.IH) simp
      then show "(case x of (s, p') \<Rightarrow> parse_loop n (ast @ [s]) p') \<noteq> None"
        by (simp add: case_prod_beta)
    qed
    with True show ?thesis by simp
  next
    case False
    then show ?thesis by auto
  qed
qed

text \<open>
  The bound that \<open>parse\<close> starts with is enough for every list of tokens: \<open>parse\<close>
  always gives a result, a list of statements or an exception.
\<close>

lemma parse_returns: "\<exists>r. parse toks = Some r"
proof -
  have "parse_loop (3 * length toks + 4) [] \<lparr>tokens = toks, pos = 0\<rparr> \<noteq> None"
    by (rule parse_loop_returns) (simp add: remaining_def)
  then show ?thesis by (simp add: parse_def)
qed

section \<open>The generated code and the counter\<close>

lemma is_digit_digit_char: "d < 10 \<Longrightarrow> is_digit (digit_char d)"
  by (simp add: is_digit_def digit_char_def)

lemma digit_char_value: "d < 10 \<Longrightarrow> int (of_char (digit_char d)) - 48 = int d"
  by (simp add: digit_char_def)

lemma str_nat_digits: "c \<in> set (str_nat n) \<Longrightarrow> is_digit c"
proof (induction n rule: str_nat.induct)
  case (1 n)
  show ?case
  proof (cases "n < 10")
    case True
    with "1.prems" show ?thesis by (simp add: str_nat.simps [of n] is_digit_digit_char)
  next
    case False
    with "1.prems" "1.IH" show ?thesis
      by (auto simp: str_nat.simps [of n] is_digit_digit_char)
  qed
qed

lemma str_nat_nonempty: "str_nat n \<noteq> []"
  by (subst str_nat.simps) simp

lemma int_of_str_snoc: "int_of_str (s @ [c]) = 10 * int_of_str s + (int (of_char c) - 48)"
  by (simp add: int_of_str_def)

lemma int_of_str_str_nat: "int_of_str (str_nat n) = int n"
proof (induction n rule: str_nat.induct)
  case (1 n)
  show ?case
  proof (cases "n < 10")
    case True
    then show ?thesis by (simp add: str_nat.simps [of n] int_of_str_def digit_char_value)
  next
    case False
    with "1.IH" have "int_of_str (str_nat (n div 10)) = int (n div 10)" by simp
    with False show ?thesis
      by (simp add: str_nat.simps [of n] int_of_str_snoc digit_char_value zdiv_int zmod_int)
  qed
qed

lemma str_nat_inj: "str_nat a = str_nat b \<Longrightarrow> a = b"
  by (metis int_of_str_str_nat of_nat_eq_iff)

lemma generate_TAC_expr_eq:
  "generate_TAC_expr e (code, tc) = (expr_val e tc, code @ expr_lines e tc, tc + binops e)"
  by (induction e arbitrary: code tc) (simp_all add: new_temp_def)

lemma generate_TAC_loop_eq:
  "generate_TAC_loop ast (code, tc) = (code @ ast_lines ast tc, tc + binops_ast ast)"
proof (induction ast arbitrary: code tc)
  case Nil
  show ?case by (simp add: binops_ast_def)
next
  case (Cons s ast)
  show ?case by (cases s) (simp_all add: generate_TAC_expr_eq Cons.IH binops_ast_def)
qed

lemma generate_TAC_eq: "generate_TAC ast tc = (ast_lines ast tc, tc + binops_ast ast)"
  by (simp add: generate_TAC_def generate_TAC_loop_eq)

lemma length_expr_lines: "length (expr_lines e tc) = binops e"
  by (induction e arbitrary: tc) simp_all

lemma length_stmt_lines: "length (stmt_lines s tc) = binops_stmt s + 1"
  by (cases s) (simp_all add: length_expr_lines)

lemma expr_lines_no_binop: "binops e = 0 \<Longrightarrow> expr_lines e tc = expr_lines e tc' \<and> expr_val e tc = expr_val e tc'"
  by (cases e) simp_all

lemma stmt_lines_no_binop: "binops_stmt s = 0 \<Longrightarrow> stmt_lines s tc = stmt_lines s tc'"
proof (cases s)
  case (Assign name e)
  assume "binops_stmt s = 0"
  with Assign expr_lines_no_binop [of e tc tc'] show ?thesis by simp
next
  case (Print e)
  assume "binops_stmt s = 0"
  with Print expr_lines_no_binop [of e tc tc'] show ?thesis by simp
qed

lemma ast_lines_no_binop: "binops_ast ast = 0 \<Longrightarrow> ast_lines ast tc = ast_lines ast tc'"
proof (induction ast arbitrary: tc tc')
  case Nil show ?case by simp
next
  case (Cons s ast)
  from Cons.prems have s: "binops_stmt s = 0" and r: "binops_ast ast = 0"
    by (simp_all add: binops_ast_def)
  show ?case using stmt_lines_no_binop [OF s, of tc tc'] Cons.IH [OF r, of tc tc'] s by simp
qed

lemma digits_then_space_inj:
  assumes "str_nat a @ CHR '' '' # x = str_nat b @ CHR '' '' # y"
  shows "a = b"
proof -
  have nd: "\<not> is_digit CHR '' ''" by (simp add: is_digit_def)
  have "takeWhile is_digit (str_nat a @ CHR '' '' # x) = str_nat a"
    using nd str_nat_digits by (simp add: takeWhile_append2)
  moreover have "takeWhile is_digit (str_nat b @ CHR '' '' # y) = str_nat b"
    using nd str_nat_digits by (simp add: takeWhile_append2)
  ultimately have "str_nat a = str_nat b" using assms by simp
  then show ?thesis by (rule str_nat_inj)
qed

lemma expr_lines_differ:
  assumes "expr_lines e tc = expr_lines e tc'" and "tc \<noteq> tc'"
  shows "binops e = 0"
proof (cases e)
  case (BinOp op l r)
  define k where "k = binops l + binops r + 1"
  define x where "x = ''= '' @ expr_val l tc @ '' '' @ op @ '' '' @ expr_val r (tc + binops l)"
  define y where "y = ''= '' @ expr_val l tc' @ '' '' @ op @ '' '' @ expr_val r (tc' + binops l)"
  have "last (expr_lines e tc) = CHR ''t'' # str_nat (tc + k) @ CHR '' '' # x"
    by (simp add: BinOp k_def x_def add.assoc)
  moreover have "last (expr_lines e tc') = CHR ''t'' # str_nat (tc' + k) @ CHR '' '' # y"
    by (simp add: BinOp k_def y_def add.assoc)
  ultimately have "str_nat (tc + k) @ CHR '' '' # x = str_nat (tc' + k) @ CHR '' '' # y"
    using assms(1) by simp
  then have "tc + k = tc' + k" by (rule digits_then_space_inj)
  with assms(2) show ?thesis by simp
qed simp_all

lemma stmt_lines_differ:
  assumes "stmt_lines s tc = stmt_lines s tc'" and "tc \<noteq> tc'"
  shows "binops_stmt s = 0"
proof (cases s)
  case (Assign name e)
  with assms(1) have "expr_lines e tc = expr_lines e tc'" by simp
  with assms(2) Assign show ?thesis by (simp add: expr_lines_differ)
next
  case (Print e)
  with assms(1) have "expr_lines e tc = expr_lines e tc'" by simp
  with assms(2) Print show ?thesis by (simp add: expr_lines_differ)
qed

lemma ast_lines_differ:
  "ast_lines ast tc = ast_lines ast tc' \<Longrightarrow> tc \<noteq> tc' \<Longrightarrow> binops_ast ast = 0"
proof (induction ast arbitrary: tc tc')
  case Nil show ?case by (simp add: binops_ast_def)
next
  case (Cons s ast)
  have len: "length (stmt_lines s tc) = length (stmt_lines s tc')"
    by (simp add: length_stmt_lines)
  from Cons.prems(1) len have s: "stmt_lines s tc = stmt_lines s tc'"
    and r: "ast_lines ast (tc + binops_stmt s) = ast_lines ast (tc' + binops_stmt s)"
    by simp_all
  from s Cons.prems(2) have "binops_stmt s = 0" by (rule stmt_lines_differ)
  moreover have "tc + binops_stmt s \<noteq> tc' + binops_stmt s" using Cons.prems(2) by simp
  with r have "binops_ast ast = 0" by (rule Cons.IH)
  ultimately show ?case by (simp add: binops_ast_def)
qed

text \<open>
  Claim C2, as amended. Nothing resets \<open>temp_count\<close>: a call of \<open>generate_TAC\<close> leaves
  the counter raised by the number of binary operations of the program, and a second
  call in the same process starts there. The second call gives the same instructions as
  the first exactly when the program has no binary operation.
\<close>

theorem generate_TAC_rerun:
  "snd (generate_TAC ast tc) = tc + binops_ast ast
   \<and> (fst (generate_TAC ast (snd (generate_TAC ast tc))) = fst (generate_TAC ast tc))
       = (binops_ast ast = 0)"
proof -
  have "(ast_lines ast (tc + binops_ast ast) = ast_lines ast tc) = (binops_ast ast = 0)"
  proof
    assume eq: "ast_lines ast (tc + binops_ast ast) = ast_lines ast tc"
    show "binops_ast ast = 0"
    proof (rule ccontr)
      assume "binops_ast ast \<noteq> 0"
      then have "tc + binops_ast ast \<noteq> tc" by simp
      with eq have "binops_ast ast = 0" by (rule ast_lines_differ)
      with \<open>binops_ast ast \<noteq> 0\<close> show False by simp
    qed
  next
    assume "binops_ast ast = 0"
    then show "ast_lines ast (tc + binops_ast ast) = ast_lines ast tc" by simp
  qed
  then show ?thesis by (simp add: generate_TAC_eq)
qed

text \<open>
  Claim C2 as stated fails for \<open>[("assign", "x", ("binop", "+", ("num", 1), ("num", 2)))]\<close>:
  the first call gives \<open>t1 = 1 + 2\<close>, \<open>x = t1\<close> and the second, in the same process,
  \<open>t2 = 1 + 2\<close>, \<open>x = t2\<close>.
\<close>

theorem generate_TAC_rerun_counterexample:
  "fst (generate_TAC [Assign ''x'' (BinOp ''+'' (Num 1) (Num 2))]
         (snd (generate_TAC [Assign ''x'' (BinOp ''+'' (Num 1) (Num 2))] 0)))
   \<noteq> fst (generate_TAC [Assign ''x'' (BinOp ''+'' (Num 1) (Num 2))] 0)"
  by code_simp

section \<open>The assembly of the generated code\<close>

lemma takeWhile_stop: "\<not> P c \<Longrightarrow> takeWhile P (xs @ c # ys) = takeWhile P xs"
  by (induction xs) simp_all

lemma dropWhile_stop: "\<not> P c \<Longrightarrow> dropWhile P (xs @ c # ys) = dropWhile P xs @ c # ys"
  by (induction xs) simp_all

lemma split_ws_append_space:
  "is_space c \<Longrightarrow> split_ws (xs @ c # ys) = split_ws xs @ split_ws ys"
proof (induction xs rule: split_ws.induct)
  case 1
  then show ?case by simp
next
  case (2 x xs)
  show ?case
  proof (cases "is_space x")
    case True
    with 2 show ?thesis by simp
  next
    case False
    with 2 have "split_ws (dropWhile (\<lambda>x. \<not> is_space x) xs @ c # ys)
        = split_ws (dropWhile (\<lambda>x. \<not> is_space x) xs) @ split_ws ys"
      by simp
    with False "2.prems" show ?thesis
      by (simp add: takeWhile_stop dropWhile_stop)
  qed
qed

lemma split_ws_word: "w \<noteq> [] \<Longrightarrow> \<forall>c \<in> set w. \<not> is_space c \<Longrightarrow> split_ws w = [w]"
proof (cases w)
  case Nil
  assume "w \<noteq> []"
  with Nil show ?thesis by simp
next
  case (Cons a list)
  assume "\<forall>c \<in> set w. \<not> is_space c"
  with Cons have a: "\<not> is_space a" and l: "\<forall>c \<in> set list. \<not> is_space c" by simp_all
  from l have t: "takeWhile (\<lambda>x. \<not> is_space x) list = list"
    and d: "dropWhile (\<lambda>x. \<not> is_space x) list = []"
    by simp_all
  from a have "split_ws (a # list) =
      (a # takeWhile (\<lambda>x. \<not> is_space x) list) # split_ws (dropWhile (\<lambda>x. \<not> is_space x) list)"
    by simp
  also have "\<dots> = [a # list]" by (simp only: t d split_ws.simps)
  finally show ?thesis by (simp only: Cons)
qed

lemma split_ws_nonempty: "v \<noteq> [] \<Longrightarrow> \<not> is_space (hd v) \<Longrightarrow> split_ws v \<noteq> []"
  by (cases v) simp_all

lemma space_is_space: "is_space CHR '' ''"
  by (simp add: is_space_def)

lemma split_ws_assign_line: "split_ws (x @ '' = '' @ y) = split_ws x @ [''=''] @ split_ws y"
proof -
  have "split_ws (x @ CHR '' '' # (''='' @ CHR '' '' # y)) = split_ws x @ split_ws (''='' @ CHR '' '' # y)"
    by (rule split_ws_append_space [OF space_is_space])
  also have "split_ws (''='' @ CHR '' '' # y) = split_ws ''='' @ split_ws y"
    by (rule split_ws_append_space [OF space_is_space])
  also have "split_ws ''='' = [''='']" by (simp add: is_space_def)
  finally show ?thesis by simp
qed

lemma split_ws_print_line: "split_ws (''PRINT '' @ v) = ''PRINT'' # split_ws v"
proof -
  have "split_ws (''PRINT'' @ CHR '' '' # v) = split_ws ''PRINT'' @ split_ws v"
    by (rule split_ws_append_space [OF space_is_space])
  moreover have "split_ws ''PRINT'' = [''PRINT'']" by (simp add: is_space_def)
  ultimately show ?thesis by simp
qed

lemma two_members: "a \<in> set xs \<Longrightarrow> b \<in> set xs \<Longrightarrow> a \<noteq> b \<Longrightarrow> 2 \<le> length xs"
  by (cases xs; cases "tl xs") auto

lemma generate_ASM_loop_eq:
  "generate_ASM_loop tac asm =
     (if \<forall>line \<in> set tac. line_ok line then Inr (asm @ concat (map asm_of_line tac))
      else Inl IndexError)"
proof (induction tac arbitrary: asm)
  case Nil
  show ?case by simp
next
  case (Cons line tac)
  have step: "generate_ASM_loop (line # tac) asm =
      (if line_ok line then generate_ASM_loop tac (asm @ asm_of_line line) else Inl IndexError)"
    by (auto simp: asm_of_line_def line_ok_def Let_def)
  show ?case unfolding step by (simp add: Cons.IH)
qed

lemma length_asm_of_line:
  "''='' \<in> set (split_ws line) \<or> ''PRINT'' \<in> set (split_ws line) \<Longrightarrow> length (asm_of_line line) = 2"
  by (auto simp: asm_of_line_def Let_def)

lemma assign_line_ok:
  "line_ok (x @ '' = '' @ y) \<and> ''='' \<in> set (split_ws (x @ '' = '' @ y))"
proof -
  have m: "''='' \<in> set (split_ws (x @ '' = '' @ y))" by (subst split_ws_assign_line) simp
  have "2 \<le> length (split_ws (x @ '' = '' @ y))" if "''PRINT'' \<in> set (split_ws (x @ '' = '' @ y))"
    using that m by (rule two_members) simp
  with m show ?thesis by (simp add: line_ok_def)
qed

lemma print_line_ok:
  "v \<noteq> [] \<Longrightarrow> \<not> is_space (hd v) \<Longrightarrow>
   line_ok (''PRINT '' @ v) \<and> ''PRINT'' \<in> set (split_ws (''PRINT '' @ v))"
proof -
  assume "v \<noteq> []" and "\<not> is_space (hd v)"
  then have "split_ws v \<noteq> []" by (rule split_ws_nonempty)
  then have "2 \<le> length (''PRINT'' # split_ws v)" by (cases "split_ws v") simp_all
  then show ?thesis unfolding line_ok_def split_ws_print_line by simp
qed

lemma str_int_first: "str_int n \<noteq> [] \<and> \<not> is_space (hd (str_int n))"
proof (cases "n < 0")
  case True
  then show ?thesis by (simp add: str_int_def is_space_def)
next
  case False
  have "is_digit (hd (str_nat (nat n)))"
    using str_nat_nonempty [of "nat n"] str_nat_digits [of _ "nat n"] by (simp add: hd_in_set)
  then have "\<not> is_space (hd (str_nat (nat n)))" by (auto simp: is_digit_def is_space_def Let_def)
  with False show ?thesis by (simp add: str_int_def str_nat_nonempty)
qed

lemma ident_start_not_space: "is_ident_start c \<Longrightarrow> \<not> is_space c"
  by (auto simp: is_ident_start_def is_space_def Let_def)

lemma expr_val_first:
  "node_from toks e \<Longrightarrow> expr_val e tc \<noteq> [] \<and> \<not> is_space (hd (expr_val e tc))"
proof (cases e)
  case (Num n)
  then show ?thesis using str_int_first [of n] by simp
next
  case (Var v)
  assume "node_from toks e"
  with Var show ?thesis by (simp add: ident_start_not_space)
next
  case (BinOp op l r)
  then show ?thesis by (simp add: is_space_def)
qed

lemma expr_lines_shape: "line \<in> set (expr_lines e tc) \<Longrightarrow> \<exists>x y. line = x @ '' = '' @ y"
proof (induction e arbitrary: tc)
  case (BinOp op l r)
  then show ?case
    by (auto simp del: append_assoc expr_val.simps intro: exI [of _ "expr_val (BinOp op l r) tc"])
qed simp_all

lemma stmt_lines_words:
  assumes "stmt_from toks s" and "line \<in> set (stmt_lines s tc)"
  shows "line_ok line \<and> (''='' \<in> set (split_ws line) \<or> ''PRINT'' \<in> set (split_ws line))"
proof (cases s)
  case (Assign name e)
  with assms(2) have "line \<in> set (expr_lines e tc) \<or> line = name @ '' = '' @ expr_val e tc"
    by auto
  then obtain x y where "line = x @ '' = '' @ y" using expr_lines_shape by blast
  then show ?thesis using assign_line_ok by blast
next
  case (Print e)
  with assms(2) have "line \<in> set (expr_lines e tc) \<or> line = ''PRINT '' @ expr_val e tc"
    by auto
  then show ?thesis
  proof
    assume "line \<in> set (expr_lines e tc)"
    then obtain x y where "line = x @ '' = '' @ y" using expr_lines_shape by blast
    then show ?thesis using assign_line_ok by blast
  next
    assume l: "line = ''PRINT '' @ expr_val e tc"
    from assms(1) Print have "node_from toks e" by simp
    from expr_val_first [OF this, of tc] l show ?thesis using print_line_ok by blast
  qed
qed

lemma ast_lines_words:
  "\<forall>s \<in> set ast. stmt_from toks s \<Longrightarrow> line \<in> set (ast_lines ast tc) \<Longrightarrow>
   line_ok line \<and> (''='' \<in> set (split_ws line) \<or> ''PRINT'' \<in> set (split_ws line))"
proof (induction ast arbitrary: tc)
  case Nil
  then show ?case by simp
next
  case (Cons s ast)
  from Cons.prems(2) have "line \<in> set (stmt_lines s tc) \<or> line \<in> set (ast_lines ast (tc + binops_stmt s))"
    by simp
  then show ?case
  proof
    assume "line \<in> set (stmt_lines s tc)"
    with Cons.prems(1) show ?thesis using stmt_lines_words [of toks s line tc] by simp
  next
    assume "line \<in> set (ast_lines ast (tc + binops_stmt s))"
    with Cons.prems(1) Cons.IH show ?thesis by simp
  qed
qed

lemma length_concat_two: "\<forall>x \<in> set xs. length (f x) = 2 \<Longrightarrow> length (concat (map f xs)) = 2 * length xs"
  by (induction xs) simp_all

lemma generate_ASM_of_parsed:
  assumes "parse toks = Some (Inr ast)"
  shows "generate_ASM (fst (generate_TAC ast tc)) =
         Inr (concat (map asm_of_line (fst (generate_TAC ast tc))))"
proof -
  from assms have "\<forall>s \<in> set ast. stmt_from toks s" using parse_from by blast
  then have "\<forall>line \<in> set (ast_lines ast tc). line_ok line"
    using ast_lines_words by blast
  then show ?thesis by (simp add: generate_ASM_def generate_ASM_loop_eq generate_TAC_eq)
qed

text \<open>
  Claim C7, as amended. For the code that \<open>generate_TAC\<close> writes for a parsed program,
  \<open>generate_ASM\<close> does not fail and translates the lines one by one and in order,
  each into exactly two instructions: Load then Out when \<open>PRINT\<close> is one of the words
  of the line, Load then Store otherwise. So the assembly is twice as long as the three
  address code.
\<close>

theorem generate_ASM_two_per_line:
  assumes "parse toks = Some (Inr ast)" and "tac = fst (generate_TAC ast tc)"
  shows "generate_ASM tac = Inr (concat (map asm_of_line tac))
    \<and> (\<forall>line \<in> set tac. asm_of_line line =
          (if ''PRINT'' \<in> set (split_ws line)
           then [''LOAD '' @ split_ws line ! 1, ''OUT'']
           else [''LOAD '' @ join_sp (drop 2 (split_ws line)), ''STORE '' @ hd (split_ws line)]))
    \<and> length (concat (map asm_of_line tac)) = 2 * length tac"
proof -
  from assms(1) have from_toks: "\<forall>s \<in> set ast. stmt_from toks s" using parse_from by blast
  from assms(2) have tac: "tac = ast_lines ast tc" by (simp add: generate_TAC_eq)
  have w: "line_ok line \<and> (''='' \<in> set (split_ws line) \<or> ''PRINT'' \<in> set (split_ws line))"
    if "line \<in> set tac" for line
    using that from_toks ast_lines_words unfolding tac by blast
  then have "\<forall>line \<in> set tac. line_ok line" by blast
  then have 1: "generate_ASM tac = Inr (concat (map asm_of_line tac))"
    by (simp add: generate_ASM_def generate_ASM_loop_eq)
  have 2: "asm_of_line line =
      (if ''PRINT'' \<in> set (split_ws line)
       then [''LOAD '' @ split_ws line ! 1, ''OUT'']
       else [''LOAD '' @ join_sp (drop 2 (split_ws line)), ''STORE '' @ hd (split_ws line)])"
    if "line \<in> set tac" for line
    using w [OF that] by (auto simp: asm_of_line_def Let_def)
  have "\<forall>line \<in> set tac. length (asm_of_line line) = 2"
    using w length_asm_of_line by blast
  then have 3: "length (concat (map asm_of_line tac)) = 2 * length tac"
    by (rule length_concat_two)
  from 1 2 3 show ?thesis by blast
qed

text \<open>The theorem at the program \<open>let x = PRINT + 1;\<close>.\<close>

theorem generate_ASM_two_per_line_witness:
  "parse (tokenize ''let x = PRINT + 1;'') = Some (Inr [Assign ''x'' (BinOp ''+'' (Var ''PRINT'') (Num 1))])
   \<and> fst (generate_TAC [Assign ''x'' (BinOp ''+'' (Var ''PRINT'') (Num 1))] 0) = [''t1 = PRINT + 1'', ''x = t1'']
   \<and> generate_ASM [''t1 = PRINT + 1'', ''x = t1'']
       = Inr (concat (map asm_of_line [''t1 = PRINT + 1'', ''x = t1'']))
   \<and> length (concat (map asm_of_line [''t1 = PRINT + 1'', ''x = t1''])) = 2 * length [''t1 = PRINT + 1'', ''x = t1'']"
proof -
  have p: "parse (tokenize ''let x = PRINT + 1;'') = Some (Inr [Assign ''x'' (BinOp ''+'' (Var ''PRINT'') (Num 1))])"
    by code_simp
  have t: "[''t1 = PRINT + 1'', ''x = t1''] = fst (generate_TAC [Assign ''x'' (BinOp ''+'' (Var ''PRINT'') (Num 1))] 0)"
    by code_simp
  from generate_ASM_two_per_line [OF p t] p t show ?thesis by simp
qed

text \<open>
  Claim C7 as stated says Load then Store for every Compute and Assign line. For the
  program \<open>let x = PRINT + 1;\<close> the Compute line \<open>t1 = PRINT + 1\<close> becomes
  \<open>LOAD =\<close> and \<open>OUT\<close>.
\<close>

theorem generate_ASM_kinds_counterexample:
  "parse (tokenize ''let x = PRINT + 1;'') = Some (Inr [Assign ''x'' (BinOp ''+'' (Var ''PRINT'') (Num 1))])
   \<and> generate_TAC [Assign ''x'' (BinOp ''+'' (Var ''PRINT'') (Num 1))] 0 = ([''t1 = PRINT + 1'', ''x = t1''], 1)
   \<and> generate_ASM [''t1 = PRINT + 1'', ''x = t1''] = Inr [''LOAD ='', ''OUT'', ''LOAD t1'', ''STORE x'']
   \<and> generate_ASM [''t1 = PRINT + 1'', ''x = t1'']
       \<noteq> Inr [''LOAD PRINT + 1'', ''STORE t1'', ''LOAD t1'', ''STORE x'']"
  by code_simp

text \<open>
  Claim C10. \<open>generate_ASM\<close> goes by the words of a line: its result is what
  \<open>asm_of_line\<close> gives for each line, in order, where a line with the word \<open>PRINT\<close>
  anywhere becomes the Load of its second word and Out, and only a line with the word
  \<open>=\<close> and without \<open>PRINT\<close> becomes Load and Store. (A line whose only word is
  \<open>PRINT\<close> has no second word, and \<open>generate_ASM\<close> raises IndexError.) The
  program \<open>let PRINT = 5;\<close> gives the line \<open>PRINT = 5\<close>, which becomes \<open>LOAD =\<close> and
  \<open>OUT\<close>.
\<close>

theorem generate_ASM_by_words:
  "generate_ASM tac =
     (if \<forall>line \<in> set tac. ''PRINT'' \<in> set (split_ws line) \<longrightarrow> 2 \<le> length (split_ws line)
      then Inr (concat (map asm_of_line tac)) else Inl IndexError)
   \<and> compile_tac ''let PRINT = 5;'' = Some (Inr [''PRINT = 5''])
   \<and> generate_ASM [''PRINT = 5''] = Inr [''LOAD ='', ''OUT'']"
proof -
  have "compile_tac ''let PRINT = 5;'' = Some (Inr [''PRINT = 5''])" by code_simp
  moreover have "generate_ASM [''PRINT = 5''] = Inr [''LOAD ='', ''OUT'']" by code_simp
  moreover have "generate_ASM tac =
     (if \<forall>line \<in> set tac. ''PRINT'' \<in> set (split_ws line) \<longrightarrow> 2 \<le> length (split_ws line)
      then Inr (concat (map asm_of_line tac)) else Inl IndexError)"
    using generate_ASM_loop_eq [of tac "[]"] by (simp add: generate_ASM_def line_ok_def)
  ultimately show ?thesis by blast
qed

text \<open>The theorem at two lines that hold the word \<open>PRINT\<close>.\<close>

theorem generate_ASM_by_words_witness:
  "generate_ASM [''PRINT = 5'', ''x = PRINT''] = Inr (concat (map asm_of_line [''PRINT = 5'', ''x = PRINT'']))
   \<and> concat (map asm_of_line [''PRINT = 5'', ''x = PRINT'']) = [''LOAD ='', ''OUT'', ''LOAD ='', ''OUT'']"
proof -
  have h: "\<forall>line \<in> set [''PRINT = 5'', ''x = PRINT''].
       ''PRINT'' \<in> set (split_ws line) \<longrightarrow> 2 \<le> length (split_ws line)"
    by code_simp
  have c: "concat (map asm_of_line [''PRINT = 5'', ''x = PRINT'']) = [''LOAD ='', ''OUT'', ''LOAD ='', ''OUT'']"
    by code_simp
  from generate_ASM_by_words [of "[''PRINT = 5'', ''x = PRINT'']"] h c show ?thesis by simp
qed

section \<open>Splitting lines and evaluating operands\<close>

lemma split_sep_char:
  "c \<notin> set xs \<Longrightarrow> split_sep [c] cur xs = [cur @ xs]"
  by (induction xs arbitrary: cur) auto

lemma split_sep_char_app:
  "c \<notin> set xs \<Longrightarrow> split_sep [c] cur (xs @ c # ys) = (cur @ xs) # split_sep [c] [] ys"
  by (induction xs arbitrary: cur) auto

lemma take_eq_member: "take n xs = ys \<Longrightarrow> y \<in> set ys \<Longrightarrow> y \<in> set xs"
  using set_take_subset by fastforce

lemma split_sep_eq_none:
  "CHR ''='' \<notin> set ys \<Longrightarrow> split_sep '' = '' cur ys = [cur @ ys]"
proof (induction ys arbitrary: cur)
  case Nil
  show ?case by simp
next
  case (Cons y ys)
  have "take (length '' = '') (y # ys) \<noteq> '' = ''"
  proof
    assume "take (length '' = '') (y # ys) = '' = ''"
    then have "CHR ''='' \<in> set (y # ys)" by (rule take_eq_member) simp
    with Cons.prems show False by simp
  qed
  moreover from Cons.prems have "CHR ''='' \<notin> set ys" by simp
  ultimately show ?case using Cons.IH [of "cur @ [y]"] by (simp del: take_Suc_Cons)
qed

lemma split_sep_eq_app:
  "CHR '' '' \<notin> set x \<Longrightarrow> split_sep '' = '' cur (x @ '' = '' @ y) = (cur @ x) # split_sep '' = '' [] y"
proof (induction x arbitrary: cur)
  case Nil
  show ?case by simp
next
  case (Cons a x)
  then show ?case by auto
qed

lemma split_assign_line:
  "CHR '' '' \<notin> set x \<Longrightarrow> CHR ''='' \<notin> set y \<Longrightarrow> split_sep '' = '' [] (x @ '' = '' @ y) = [x, y]"
  using split_sep_eq_app [of x "[]" y] split_sep_eq_none [of y "[]"] by simp

lemma contains_eq_char: "contains ''='' s = (CHR ''='' \<in> set s)"
  by (induction s) auto

lemma word_chars: "is_word c \<Longrightarrow> c \<noteq> CHR '' '' \<and> c \<noteq> CHR ''='' \<and> \<not> is_space c"
  by (auto simp: is_word_def is_ident_start_def is_digit_def is_space_def Let_def)

lemma digit_is_word: "is_digit c \<Longrightarrow> is_word c"
  by (simp add: is_word_def)

lemma identifier_chars: "is_identifier w \<Longrightarrow> c \<in> set w \<Longrightarrow> is_word c"
  by (cases w) (auto simp: is_identifier_def is_word_def)

lemma literal_chars: "is_literal w \<Longrightarrow> c \<in> set w \<Longrightarrow> is_digit c \<or> c = CHR ''-''"
  by (cases w) (auto simp: is_literal_def isdigit_def split: if_splits)

lemma operand_chars:
  assumes "is_operand w" and "c \<in> set w"
  shows "c \<noteq> CHR '' '' \<and> c \<noteq> CHR ''='' \<and> \<not> is_space c"
proof -
  from assms(1) have "is_literal w \<or> is_identifier w" by (simp add: is_operand_def)
  with assms(2) have "is_word c \<or> c = CHR ''-''"
    using identifier_chars literal_chars digit_is_word by blast
  then show ?thesis using word_chars by (auto simp: is_space_def)
qed

lemma operand_nonempty: "is_operand w \<Longrightarrow> w \<noteq> []"
  by (auto simp: is_operand_def is_literal_def is_identifier_def isdigit_def)

lemma py_eval_operand:
  assumes "is_operand a"
  shows "py_eval B m a = Some (py_operand B m a)"
proof -
  from assms have "CHR '' '' \<notin> set a" using operand_chars by blast
  then have "split_sep '' '' [] a = [a]" using split_sep_char [of "CHR '' ''" a "[]"] by simp
  with assms show ?thesis by (simp add: py_eval_def)
qed

lemma split_binary:
  assumes "is_operand a" and "is_operand b" and "op \<in> set [''+'', ''-'', ''*'', ''/'']"
  shows "split_sep '' '' [] (a @ '' '' @ op @ '' '' @ b) = [a, op, b]"
proof -
  have a: "CHR '' '' \<notin> set a" and b: "CHR '' '' \<notin> set b"
    using assms operand_chars by blast+
  have o: "CHR '' '' \<notin> set op" using assms(3) by auto
  have "split_sep '' '' [] (a @ CHR '' '' # (op @ CHR '' '' # b)) =
      ([] @ a) # split_sep '' '' [] (op @ CHR '' '' # b)"
    using split_sep_char_app [OF a] by simp
  also have "split_sep '' '' [] (op @ CHR '' '' # b) = ([] @ op) # split_sep '' '' [] b"
    using split_sep_char_app [OF o] by simp
  also have "split_sep '' '' [] b = [[] @ b]"
    using split_sep_char [OF b] by simp
  finally show ?thesis by simp
qed

lemma py_eval_binary:
  assumes "is_operand a" and "is_operand b" and "op \<in> set [''+'', ''-'', ''*'', ''/'']"
    and "a \<notin> set py_keywords" and "b \<notin> set py_keywords"
  shows "py_eval B m (a @ '' '' @ op @ '' '' @ b) =
     (case py_operand B m a of
        Raised \<Rightarrow> Some Raised
      | Value x \<Rightarrow>
          (case py_operand B m b of Raised \<Rightarrow> Some Raised | Value y \<Rightarrow> py_binop op x y))"
proof -
  from assms(4) have "a \<noteq> ''not''" by (auto simp: py_keywords_def)
  with assms show ?thesis
    unfolding py_eval_def split_binary [OF assms(1-3)] by auto
qed

section \<open>Running the generated code\<close>

lemma run_loop_store:
  assumes "contains ''='' stmt" and "\<not> contains ''PRINT'' stmt"
    and "split_sep '' = '' [] stmt = [var, e]" and "py_eval B m e = Some (Value v)"
  shows "run_loop B (stmt # tac) (m, out) = run_loop B tac (m(var \<mapsto> v), out)"
  using assms by simp

lemma run_loop_zero:
  assumes "contains ''='' stmt" and "\<not> contains ''PRINT'' stmt"
    and "split_sep '' = '' [] stmt = [var, e]" and "py_eval B m e = Some Raised"
  shows "run_loop B (stmt # tac) (m, out) = run_loop B tac (m(var \<mapsto> PInt 0), out)"
  using assms by simp

lemma run_loop_print:
  assumes "contains ''PRINT'' stmt" and "split_ws stmt = parts" and "2 \<le> length parts"
  shows "run_loop B (stmt # tac) (m, out) =
         run_loop B tac (m, out @ [case m (parts ! 1) of None \<Rightarrow> PInt 0 | Some v \<Rightarrow> v])"
  using assms by (simp add: Let_def)

lemma main_eq:
  assumes "compile_tac code = Some (Inr tac)" and "generate_ASM tac = Inr asm"
  shows "main B code = run B tac"
  using assms by (simp add: main_def)

lemma run_sum_then_print:
  "run B [''t1 = 2 + 3'', ''x = t1'', ''PRINT x''] =
     Some (Inr ([''t1'' \<mapsto> PInt 5, ''x'' \<mapsto> PInt 5], [PInt 5]))"
proof -
  have 1: "run_loop B (''t1 = 2 + 3'' # tac) (m, out) = run_loop B tac (m(''t1'' \<mapsto> PInt 5), out)"
    for tac m out
  proof (rule run_loop_store)
    show "contains ''='' ''t1 = 2 + 3''" by code_simp
    show "\<not> contains ''PRINT'' ''t1 = 2 + 3''" by code_simp
    show "split_sep '' = '' [] ''t1 = 2 + 3'' = [''t1'', ''2 + 3'']" by code_simp
    show "py_eval B m ''2 + 3'' = Some (Value (PInt 5))" by code_simp
  qed
  have 2: "run_loop B (''x = t1'' # tac) (m, out) = run_loop B tac (m(''x'' \<mapsto> PInt 5), out)"
    if "m ''t1'' = Some (PInt 5)" for tac m out
  proof (rule run_loop_store)
    show "contains ''='' ''x = t1''" by code_simp
    show "\<not> contains ''PRINT'' ''x = t1''" by code_simp
    show "split_sep '' = '' [] ''x = t1'' = [''x'', ''t1'']" by code_simp
    have "py_eval B m ''t1'' =
        Some (case m ''t1'' of Some v \<Rightarrow> Value v
              | None \<Rightarrow> (case B ''t1'' of Some v \<Rightarrow> Value v | None \<Rightarrow> Raised))"
      by code_simp
    with that show "py_eval B m ''t1'' = Some (Value (PInt 5))" by simp
  qed
  have 3: "run_loop B (''PRINT x'' # tac) (m, out) = run_loop B tac (m, out @ [PInt 5])"
    if "m ''x'' = Some (PInt 5)" for tac m out
  proof -
    have "contains ''PRINT'' ''PRINT x''" by code_simp
    moreover have "split_ws ''PRINT x'' = [''PRINT'', ''x'']" by code_simp
    ultimately have "run_loop B (''PRINT x'' # tac) (m, out) =
        run_loop B tac (m, out @ [case m ([''PRINT'', ''x''] ! 1) of None \<Rightarrow> PInt 0 | Some v \<Rightarrow> v])"
      by (rule run_loop_print) simp
    with that show ?thesis by simp
  qed
  have "run B [''t1 = 2 + 3'', ''x = t1'', ''PRINT x''] =
      run_loop B [''x = t1'', ''PRINT x''] ([''t1'' \<mapsto> PInt 5], [])"
    by (simp only: run_def 1)
  also have "\<dots> = run_loop B [''PRINT x''] ([''t1'' \<mapsto> PInt 5, ''x'' \<mapsto> PInt 5], [])"
    by (rule 2) simp
  also have "\<dots> = run_loop B [] ([''t1'' \<mapsto> PInt 5, ''x'' \<mapsto> PInt 5], [] @ [PInt 5])"
    by (rule 3) simp
  finally show ?thesis by simp
qed

text \<open>
  Claim C8, as amended. The program \<open>let x = 2 + 3; print(x);\<close> prints 5, and the
  memory at the end holds 5 for \<open>x\<close> and also 5 for the temporary \<open>t1\<close>, whatever the
  builtins are.
\<close>

theorem sum_program_output:
  "main builtins ''let x = 2 + 3; print(x);'' =
     Some (Inr ([''t1'' \<mapsto> PInt 5, ''x'' \<mapsto> PInt 5], [PInt 5]))"
proof -
  have "compile_tac ''let x = 2 + 3; print(x);'' = Some (Inr [''t1 = 2 + 3'', ''x = t1'', ''PRINT x''])"
    by code_simp
  moreover have "generate_ASM [''t1 = 2 + 3'', ''x = t1'', ''PRINT x''] =
      Inr [''LOAD 2 + 3'', ''STORE t1'', ''LOAD t1'', ''STORE x'', ''LOAD x'', ''OUT'']"
    by code_simp
  ultimately have "main builtins ''let x = 2 + 3; print(x);'' = run builtins [''t1 = 2 + 3'', ''x = t1'', ''PRINT x'']"
    by (rule main_eq)
  then show ?thesis by (simp only: run_sum_then_print)
qed

text \<open>
  Claim C8 as stated gives \<open>{x: 5}\<close> for the memory at the end. The memory is another
  one: it has \<open>t1\<close> as well.
\<close>

theorem sum_program_memory_counterexample:
  "main few_builtins ''let x = 2 + 3; print(x);'' \<noteq> Some (Inr ([''x'' \<mapsto> PInt 5], [PInt 5]))"
proof
  assume "main few_builtins ''let x = 2 + 3; print(x);'' = Some (Inr ([''x'' \<mapsto> PInt 5], [PInt 5]))"
  moreover have "compile_tac ''let x = 2 + 3; print(x);'' = Some (Inr [''t1 = 2 + 3'', ''x = t1'', ''PRINT x''])"
    by code_simp
  moreover have "generate_ASM [''t1 = 2 + 3'', ''x = t1'', ''PRINT x''] =
      Inr [''LOAD 2 + 3'', ''STORE t1'', ''LOAD t1'', ''STORE x'', ''LOAD x'', ''OUT'']"
    by code_simp
  ultimately have "run few_builtins [''t1 = 2 + 3'', ''x = t1'', ''PRINT x''] =
      Some (Inr ([''x'' \<mapsto> PInt 5], [PInt 5]))"
    by (simp add: main_def)
  then have "[''t1'' \<mapsto> PInt 5, ''x'' \<mapsto> PInt 5] = [''x'' \<mapsto> PInt 5]"
    by (simp add: run_sum_then_print)
  then have "[''t1'' \<mapsto> PInt 5, ''x'' \<mapsto> PInt 5] ''t1'' = [''x'' \<mapsto> PInt 5] ''t1''"
    by (rule arg_cong)
  then show False by simp
qed

lemma contains_print_line: "contains ''PRINT'' (''PRINT '' @ v)"
  by simp

lemma split_ws_print_word:
  assumes "v \<noteq> []" and "\<forall>c \<in> set v. \<not> is_space c"
  shows "split_ws (''PRINT '' @ v) = [''PRINT'', v]"
  using split_ws_word [OF assms] by (simp only: split_ws_print_line)

lemma literal_word:
  assumes "is_literal v"
  shows "v \<noteq> []" and "\<forall>c \<in> set v. \<not> is_space c"
proof -
  show "v \<noteq> []" using assms by (auto simp: is_literal_def isdigit_def split: if_splits)
  show "\<forall>c \<in> set v. \<not> is_space c"
  proof
    fix c assume "c \<in> set v"
    with assms have "is_digit c \<or> c = CHR ''-''" by (rule literal_chars)
    then show "\<not> is_space c" by (auto simp: is_digit_def is_space_def Let_def)
  qed
qed

text \<open>
  Claim C6, as amended. For a Print line \<open>PRINT v\<close>, the loop looks the text \<open>v\<close> up in
  the memory, appends what it finds to the output, or 0 when \<open>v\<close> is not a key, and
  leaves the memory as it is. (\<open>v\<close> is one word, as every operand of a tokenized program
  is.) So a Print line whose operand is an integer literal prints 0 as long as the text
  of the literal is not a key of the memory: the program \<open>print(7);\<close> becomes \<open>PRINT 7\<close>
  and prints 0.
\<close>

theorem print_line_looks_up:
  "(v \<noteq> [] \<and> (\<forall>c \<in> set v. \<not> is_space c) \<longrightarrow>
      run_loop builtins ((''PRINT '' @ v) # tac) (memory, out) =
      run_loop builtins tac (memory, out @ [case memory v of None \<Rightarrow> PInt 0 | Some x \<Rightarrow> x]))
   \<and> (is_literal v \<and> memory v = None \<longrightarrow>
      run_loop builtins ((''PRINT '' @ v) # tac) (memory, out) =
      run_loop builtins tac (memory, out @ [PInt 0]))
   \<and> compile_tac ''print(7);'' = Some (Inr [''PRINT 7''])
   \<and> main builtins ''print(7);'' = Some (Inr (Map.empty, [PInt 0]))"
proof -
  have step: "run_loop builtins ((''PRINT '' @ v) # tac) (memory, out) =
      run_loop builtins tac (memory, out @ [case memory v of None \<Rightarrow> PInt 0 | Some x \<Rightarrow> x])"
    if "v \<noteq> []" and "\<forall>c \<in> set v. \<not> is_space c" for v tac memory out
  proof -
    have "run_loop builtins ((''PRINT '' @ v) # tac) (memory, out) =
      run_loop builtins tac
        (memory, out @ [case memory ([''PRINT'', v] ! 1) of None \<Rightarrow> PInt 0 | Some x \<Rightarrow> x])"
      by (rule run_loop_print [OF contains_print_line split_ws_print_word [OF that]]) simp
    then show ?thesis by simp
  qed
  have lit: "run_loop builtins ((''PRINT '' @ v) # tac) (memory, out) =
      run_loop builtins tac (memory, out @ [PInt 0])"
    if "is_literal v" and "memory v = None"
    using step [OF literal_word [OF that(1)], of tac memory out] that(2) by simp
  have c: "compile_tac ''print(7);'' = Some (Inr [''PRINT 7''])" by code_simp
  have a: "generate_ASM [''PRINT 7''] = Inr [''LOAD 7'', ''OUT'']" by code_simp
  have "main builtins ''print(7);'' = run builtins [''PRINT 7'']" using c a by (rule main_eq)
  also have "\<dots> = run_loop builtins [] (Map.empty, [] @ [case Map.empty ''7'' of None \<Rightarrow> PInt 0 | Some x \<Rightarrow> x])"
    unfolding run_def using step [of "''7''" "[]" Map.empty "[]"] by (simp add: is_space_def)
  finally have m: "main builtins ''print(7);'' = Some (Inr (Map.empty, [PInt 0]))" by simp
  from step lit c m show ?thesis by blast
qed

text \<open>
  The theorem at a memory that has the key \<open>7\<close>, at the name \<open>x\<close> and at the literal
  \<open>8\<close>, which are no keys.
\<close>

theorem print_line_looks_up_witness:
  "run_loop few_builtins [''PRINT 7'', ''PRINT x'', ''PRINT 8''] ([''7'' \<mapsto> PInt 3], []) =
     Some (Inr ([''7'' \<mapsto> PInt 3], [PInt 3, PInt 0, PInt 0]))"
proof -
  have 1: "''7'' \<noteq> [] \<and> (\<forall>c \<in> set ''7''. \<not> is_space c)" by (simp add: is_space_def)
  have 2: "''x'' \<noteq> [] \<and> (\<forall>c \<in> set ''x''. \<not> is_space c)" by (simp add: is_space_def)
  have 3: "is_literal ''8''" by code_simp
  from 1 print_line_looks_up [of "''7''" few_builtins "[''PRINT x'', ''PRINT 8'']" "[''7'' \<mapsto> PInt 3]" "[]"]
  have "run_loop few_builtins [''PRINT 7'', ''PRINT x'', ''PRINT 8''] ([''7'' \<mapsto> PInt 3], []) =
      run_loop few_builtins [''PRINT x'', ''PRINT 8''] ([''7'' \<mapsto> PInt 3], [PInt 3])"
    by simp
  also from 2 print_line_looks_up [of "''x''" few_builtins "[''PRINT 8'']" "[''7'' \<mapsto> PInt 3]" "[PInt 3]"]
  have "\<dots> = run_loop few_builtins [''PRINT 8''] ([''7'' \<mapsto> PInt 3], [PInt 3, PInt 0])"
    by simp
  also from 3 print_line_looks_up [of "''8''" few_builtins "[]" "[''7'' \<mapsto> PInt 3]" "[PInt 3, PInt 0]"]
  have "\<dots> = run_loop few_builtins [] ([''7'' \<mapsto> PInt 3], [PInt 3, PInt 0, PInt 0])"
    by simp
  finally show ?thesis by simp
qed

text \<open>
  Claim C6 as stated has every Print line with a literal operand print 0. The parser
  accepts \<open>let 7 = 3; print(7);\<close>, the first line stores 3 under the key \<open>7\<close>, and
  \<open>PRINT 7\<close> prints 3.
\<close>

theorem print_literal_key_counterexample:
  "main few_builtins ''let 7 = 3; print(7);'' = Some (Inr ([''7'' \<mapsto> PInt 3], [PInt 3]))"
proof -
  have c: "compile_tac ''let 7 = 3; print(7);'' = Some (Inr [''7 = 3'', ''PRINT 7''])"
    by code_simp
  have a: "generate_ASM [''7 = 3'', ''PRINT 7''] = Inr [''LOAD 3'', ''STORE 7'', ''LOAD 7'', ''OUT'']"
    by code_simp
  have "main few_builtins ''let 7 = 3; print(7);'' = run few_builtins [''7 = 3'', ''PRINT 7'']"
    using c a by (rule main_eq)
  also have "\<dots> = run_loop few_builtins [''PRINT 7''] ([''7'' \<mapsto> PInt 3], [])"
    unfolding run_def
  proof (rule run_loop_store)
    show "contains ''='' ''7 = 3''" by code_simp
    show "\<not> contains ''PRINT'' ''7 = 3''" by code_simp
    show "split_sep '' = '' [] ''7 = 3'' = [''7'', ''3'']" by code_simp
    show "py_eval few_builtins Map.empty ''3'' = Some (Value (PInt 3))" by code_simp
  qed
  also have "\<dots> = run_loop few_builtins [] ([''7'' \<mapsto> PInt 3], [] @ [PInt 3])"
  proof -
    have "contains ''PRINT'' ''PRINT 7''" by code_simp
    moreover have "split_ws ''PRINT 7'' = [''PRINT'', ''7'']" by code_simp
    ultimately have "run_loop few_builtins [''PRINT 7''] ([''7'' \<mapsto> PInt 3], []) =
        run_loop few_builtins [] ([''7'' \<mapsto> PInt 3],
          [] @ [case [''7'' \<mapsto> PInt 3] ([''PRINT'', ''7''] ! 1) of None \<Rightarrow> PInt 0 | Some v \<Rightarrow> v])"
      by (rule run_loop_print) simp
    then show ?thesis by simp
  qed
  finally show ?thesis by simp
qed

section \<open>Names that have no value\<close>






lemma identifier_not_literal: "is_identifier w \<Longrightarrow> \<not> is_literal w"
  by (cases w) (auto simp: is_identifier_def is_literal_def isdigit_def is_ident_start_def
      is_digit_def Let_def)














section \<open>The parser on given programs\<close>

text \<open>
  Claim C9. \<open>parse(tokenize("let x = 1 + 2 * 3;"))\<close> is one assignment to \<open>x\<close> whose
  expression is the sum of 1 and the product of 2 and 3: \<open>*\<close> binds tighter than \<open>+\<close>.
  The same holds for \<open>/\<close> under \<open>-\<close>, and a product to the left of a sum stays a product.
\<close>

theorem parse_precedence:
  "parse (tokenize ''let x = 1 + 2 * 3;'') =
     Some (Inr [Assign ''x'' (BinOp ''+'' (Num 1) (BinOp ''*'' (Num 2) (Num 3)))])
   \<and> parse (tokenize ''let x = 1 - 2 / 3;'') =
     Some (Inr [Assign ''x'' (BinOp ''-'' (Num 1) (BinOp ''/'' (Num 2) (Num 3)))])
   \<and> parse (tokenize ''let x = 1 * 2 + 3;'') =
     Some (Inr [Assign ''x'' (BinOp ''+'' (BinOp ''*'' (Num 1) (Num 2)) (Num 3))])"
  by code_simp

text \<open>
  Claim C1, at the tokens of \<open>let x =\<close>. The claim says that the parser raises a
  SyntaxError when the input ends early. \<open>factor\<close> calls \<open>tok.isdigit()\<close> on the \<open>None\<close>
  that \<open>peek\<close> returns at the end of the tokens, which is an AttributeError.
\<close>

theorem parse_end_of_input_in_factor:
  "parse [''let'', ''x'', ''=''] = Some (Inl AttributeError)"
  by code_simp

text \<open>
  Claim C4, at the tokens of \<open>let 5 = 1;\<close> and \<open>let ; = 1;\<close>. The claim says that a
  token after \<open>let\<close> that is not an identifier is a SyntaxError. \<open>statement\<close> takes the
  name with \<open>self.eat()\<close>, which accepts any token, and returns an assignment to it.
\<close>

theorem parse_let_takes_any_name:
  "parse (tokenize ''let 5 = 1;'') = Some (Inr [Assign ''5'' (Num 1)])
   \<and> parse (tokenize ''let ; = 1;'') = Some (Inr [Assign '';'' (Num 1)])"
  by code_simp

section \<open>Programs that compute with integers only\<close>

lemma tokenize_tokens: "t \<in> set (tokenize s) \<Longrightarrow> lex_token t"
proof (induction s rule: tokenize.induct)
  case 1
  then show ?case by simp
next
  case (2 c cs)
  show ?case
  proof (cases "is_ident_start c")
    case True
    with "2.prems" have "t = c # takeWhile is_word cs \<or> t \<in> set (tokenize (dropWhile is_word cs))"
      by simp
    then show ?thesis
    proof
      assume "t = c # takeWhile is_word cs"
      with True show ?thesis
        by (auto simp: lex_token_def is_identifier_def dest: set_takeWhileD)
    next
      assume "t \<in> set (tokenize (dropWhile is_word cs))"
      with True "2.IH"(1) show ?thesis by simp
    qed
  next
    case ni: False
    show ?thesis
    proof (cases "is_digit c")
      case True
      with ni "2.prems" have "t = c # takeWhile is_digit cs \<or> t \<in> set (tokenize (dropWhile is_digit cs))"
        by simp
      then show ?thesis
      proof
        assume "t = c # takeWhile is_digit cs"
        with True show ?thesis
          by (auto simp: lex_token_def isdigit_def dest: set_takeWhileD)
      next
        assume "t \<in> set (tokenize (dropWhile is_digit cs))"
        with ni True "2.IH"(2) show ?thesis by simp
      qed
    next
      case nd: False
      show ?thesis
      proof (cases "(c = CHR ''='' \<or> c = CHR ''<'' \<or> c = CHR ''>'' \<or> c = CHR ''!'') \<and> cs \<noteq> [] \<and> hd cs = CHR ''=''")
        case True
        with ni nd "2.prems" have "t = [c, CHR ''=''] \<or> t \<in> set (tokenize (tl cs))" by simp
        then show ?thesis
        proof
          assume "t = [c, CHR ''='']"
          with True show ?thesis by (auto simp: lex_token_def)
        next
          assume "t \<in> set (tokenize (tl cs))"
          with ni nd True "2.IH"(3) show ?thesis by simp
        qed
      next
        case n2: False
        show ?thesis
        proof (cases "is_punct c")
          case True
          with ni nd n2 "2.prems" have "t = [c] \<or> t \<in> set (tokenize cs)" by auto
          then show ?thesis
          proof
            assume "t = [c]"
            with True show ?thesis by (simp add: lex_token_def)
          next
            assume "t \<in> set (tokenize cs)"
            with ni nd n2 True "2.IH"(4) show ?thesis by simp
          qed
        next
          case False
          with ni nd n2 "2.prems" "2.IH"(5) show ?thesis by auto
        qed
      qed
    qed
  qed
qed

lemma punct_chars: "is_punct c \<Longrightarrow> c \<noteq> CHR '' '' \<and> \<not> is_ident_start c"
  by (auto simp: is_punct_def is_ident_start_def)

lemma digit_chars: "is_digit c \<Longrightarrow> c \<noteq> CHR '' '' \<and> \<not> is_ident_start c"
  by (auto simp: is_digit_def is_ident_start_def Let_def)

lemma lex_token_no_space: "lex_token t \<Longrightarrow> CHR '' '' \<notin> set t"
proof -
  assume "lex_token t"
  then consider "is_identifier t" | "isdigit t" | "t \<in> set [''=='', ''<='', ''>='', ''!='']"
    | "length t = 1 \<and> is_punct (hd t)"
    by (auto simp: lex_token_def)
  then show ?thesis
  proof cases
    case 1
    then show ?thesis using identifier_chars word_chars by blast
  next
    case 2
    then show ?thesis using digit_chars by (auto simp: isdigit_def)
  next
    case 3
    then show ?thesis by auto
  next
    case 4
    then show ?thesis using punct_chars by (cases t) auto
  qed
qed

lemma lex_token_identifier: "lex_token t \<Longrightarrow> t \<noteq> [] \<Longrightarrow> is_ident_start (hd t) \<Longrightarrow> is_identifier t"
proof -
  assume a: "lex_token t" "t \<noteq> []" "is_ident_start (hd t)"
  then consider "is_identifier t" | "isdigit t" | "t \<in> set [''=='', ''<='', ''>='', ''!='']"
    | "length t = 1 \<and> is_punct (hd t)"
    by (auto simp: lex_token_def)
  then show ?thesis
  proof cases
    case 1
    then show ?thesis .
  next
    case 2
    with a show ?thesis using digit_chars by (cases t) (auto simp: isdigit_def)
  next
    case 3
    with a show ?thesis by (auto simp: is_ident_start_def)
  next
    case 4
    with a show ?thesis using punct_chars by blast
  qed
qed

lemma isdigit_str_nat: "isdigit (str_nat k)"
  using str_nat_nonempty str_nat_digits by (auto simp: isdigit_def)

lemma hd_str_nat: "is_digit (hd (str_nat k))"
  using str_nat_nonempty [of k] str_nat_digits [of _ k] by (simp add: hd_in_set)

lemma is_literal_str_int: "0 \<le> n \<Longrightarrow> is_literal (str_int n) \<and> literal_value (str_int n) = n"
proof -
  assume n: "0 \<le> n"
  then have s: "str_int n = str_nat (nat n)" by (simp add: str_int_def)
  have h: "hd (str_nat (nat n)) \<noteq> CHR ''-''" using hd_str_nat [of "nat n"] by (auto simp: is_digit_def)
  have v: "int_of_str (str_nat (nat n)) = n" using n by (simp add: int_of_str_str_nat)
  have "str_int (int_of_str (str_nat (nat n))) = str_nat (nat n)" by (simp only: v s)
  with h v show ?thesis
    by (simp add: s is_literal_def literal_value_def isdigit_str_nat)
qed

lemma temp_identifier: "is_identifier (''t'' @ str_nat k)"
  using str_nat_digits [of _ k] by (auto simp: is_identifier_def is_ident_start_def is_word_def)

lemma temp_not_reserved:
  "''t'' @ str_nat k \<notin> set py_keywords \<and> ''t'' @ str_nat k \<notin> set py_constants
   \<and> ''t'' @ str_nat k \<notin> set py_varying"
proof -
  have "str_nat k \<noteq> ''ry''"
  proof
    assume "str_nat k = ''ry''"
    with hd_str_nat [of k] show False by (simp add: is_digit_def)
  qed
  then show ?thesis by (simp add: py_keywords_def py_constants_def py_varying_def)
qed

lemma keywords_identifiers: "k \<in> set py_keywords \<Longrightarrow> is_identifier k"
proof -
  have "\<forall>k \<in> set py_keywords. is_identifier k" by code_simp
  then show "k \<in> set py_keywords \<Longrightarrow> is_identifier k" by blast
qed

lemma constants_identifiers: "k \<in> set py_constants \<Longrightarrow> is_identifier k"
proof -
  have "\<forall>k \<in> set py_constants. is_identifier k" by code_simp
  then show "k \<in> set py_constants \<Longrightarrow> is_identifier k" by blast
qed

lemma varying_identifiers: "k \<in> set py_varying \<Longrightarrow> is_identifier k"
proof -
  have "\<forall>k \<in> set py_varying. is_identifier k" by code_simp
  then show "k \<in> set py_varying \<Longrightarrow> is_identifier k" by blast
qed

lemma int_operand_props:
  assumes "int_operand B a"
  shows "is_operand a" and "a \<notin> set py_keywords"
proof -
  from assms consider "is_literal a" | "is_identifier a \<and> \<not> python_knows B a"
    by (auto simp: int_operand_def)
  then have "is_operand a \<and> a \<notin> set py_keywords"
  proof cases
    case 1
    then have "\<not> is_identifier a" using identifier_not_literal by blast
    with 1 show ?thesis
      using keywords_identifiers varying_identifiers by (auto simp: is_operand_def)
  next
    case 2
    then show ?thesis by (simp add: is_operand_def python_knows_def)
  qed
  then show "is_operand a" and "a \<notin> set py_keywords" by simp_all
qed

lemma py_operand_int:
  assumes "int_operand B a" and "ran m \<subseteq> range PInt"
  shows "int_result (py_operand B m a)"
proof -
  from assms(1) consider "is_literal a" | "is_identifier a \<and> \<not> python_knows B a"
    by (auto simp: int_operand_def)
  then show ?thesis
  proof cases
    case 1
    then show ?thesis by (simp add: py_operand_def int_result_def)
  next
    case 2
    then have nl: "\<not> is_literal a" using identifier_not_literal by blast
    from 2 have k: "a \<noteq> ''True''" "a \<noteq> ''False''" "a \<noteq> ''None''" "a \<notin> set py_keywords" "B a = None"
      by (auto simp: python_knows_def py_constants_def)
    show ?thesis
    proof (cases "m a")
      case None
      with nl k show ?thesis by (simp add: py_operand_def int_result_def)
    next
      case (Some v)
      then have "v \<in> ran m" by (auto simp: ran_def)
      with assms(2) obtain n where "v = PInt n" by auto
      with Some nl k show ?thesis by (simp add: py_operand_def int_result_def)
    qed
  qed
qed

lemma py_eval_int_rhs:
  assumes "int_rhs B r" and "ran m \<subseteq> range PInt"
  shows "\<exists>res. py_eval B m r = Some res \<and> int_result res"
proof -
  from assms(1) consider "int_operand B r"
    | a op b where "r = a @ '' '' @ op @ '' '' @ b" "int_operand B a" "int_operand B b"
        "op \<in> set [''+'', ''-'', ''*'']"
    by (auto simp: int_rhs_def)
  then show ?thesis
  proof cases
    case 1
    then show ?thesis
      using py_eval_operand [OF int_operand_props(1) [OF 1]] py_operand_int [OF 1 assms(2)]
      by simp
  next
    case 2
    have op: "op \<in> set [''+'', ''-'', ''*'', ''/'']" using 2(4) by auto
    note ev = py_eval_binary [OF int_operand_props(1) [OF 2(2)] int_operand_props(1) [OF 2(3)] op
        int_operand_props(2) [OF 2(2)] int_operand_props(2) [OF 2(3)], of B m]
    from py_operand_int [OF 2(2) assms(2)] py_operand_int [OF 2(3) assms(2)] 2(4)
    have "\<exists>res. (case py_operand B m a of
        Raised \<Rightarrow> Some Raised
      | Value x \<Rightarrow>
          (case py_operand B m b of Raised \<Rightarrow> Some Raised | Value y \<Rightarrow> py_binop op x y)) = Some res
        \<and> int_result res"
      by (auto simp: int_result_def py_binop_def as_int_def py_arith_def)
    with ev 2(1) show ?thesis by simp
  qed
qed

lemma int_operand_word:
  assumes "int_operand B a"
  shows "a \<noteq> []" and "\<forall>c \<in> set a. \<not> is_space c" and "CHR ''='' \<notin> set a"
  using operand_nonempty [OF int_operand_props(1) [OF assms]]
    operand_chars [OF int_operand_props(1) [OF assms]]
  by auto

lemma int_rhs_chars:
  assumes "int_rhs B r"
  shows "CHR ''='' \<notin> set r" and "r \<noteq> []" and "\<not> is_space (hd r)"
proof -
  from assms consider "int_operand B r"
    | a op b where "r = a @ '' '' @ op @ '' '' @ b" "int_operand B a" "int_operand B b"
        "op \<in> set [''+'', ''-'', ''*'']"
    by (auto simp: int_rhs_def)
  then have "CHR ''='' \<notin> set r \<and> r \<noteq> [] \<and> \<not> is_space (hd r)"
  proof cases
    case 1
    from int_operand_word [OF 1] show ?thesis by (cases r) auto
  next
    case 2
    from int_operand_word [OF 2(2)] int_operand_word [OF 2(3)] 2(1,4) show ?thesis
      by (cases a) auto
  qed
  then show "CHR ''='' \<notin> set r" and "r \<noteq> []" and "\<not> is_space (hd r)" by simp_all
qed

lemma run_loop_int_line:
  assumes line: "int_line B line" and m: "ran m \<subseteq> range PInt" and out: "set out \<subseteq> range PInt"
  shows "\<exists>m' out'. run_loop B (line # tac) (m, out) = run_loop B tac (m', out')
           \<and> ran m' \<subseteq> range PInt \<and> set out' \<subseteq> range PInt"
proof -
  have printed: "(case m k of None \<Rightarrow> PInt 0 | Some v \<Rightarrow> v) \<in> range PInt" for k
  proof (cases "m k")
    case None
    then show ?thesis by simp
  next
    case (Some v)
    then have "v \<in> ran m" by (auto simp: ran_def)
    with m Some show ?thesis by auto
  qed
  from line consider x r where "line = x @ '' = '' @ r" "CHR '' '' \<notin> set x" "int_rhs B r"
    | a where "line = ''PRINT '' @ a" "int_operand B a"
    by (auto simp: int_line_def)
  then show ?thesis
  proof cases
    case 1
    show ?thesis
    proof (cases "contains ''PRINT'' line")
      case True
      have "split_ws r \<noteq> []" using int_rhs_chars(2,3) [OF 1(3)] by (rule split_ws_nonempty)
      then have "2 \<le> length (split_ws line)"
        unfolding 1(1) split_ws_assign_line by (cases "split_ws r") simp_all
      from run_loop_print [OF True refl this, of B tac m out]
      have eq: "run_loop B (line # tac) (m, out) =
          run_loop B tac (m, out @ [case m (split_ws line ! 1) of None \<Rightarrow> PInt 0 | Some v \<Rightarrow> v])" .
      have "set (out @ [case m (split_ws line ! 1) of None \<Rightarrow> PInt 0 | Some v \<Rightarrow> v]) \<subseteq> range PInt"
        using printed [of "split_ws line ! 1"] out by simp
      with eq m show ?thesis by blast
    next
      case False
      have c: "contains ''='' line" unfolding 1(1) by (simp add: contains_eq_char)
      have s: "split_sep '' = '' [] line = [x, r]"
        unfolding 1(1) using 1(2) int_rhs_chars(1) [OF 1(3)] by (rule split_assign_line)
      from py_eval_int_rhs [OF 1(3) m] obtain res
        where res: "py_eval B m r = Some res" "int_result res" by blast
      show ?thesis
      proof (cases res)
        case Raised
        with res have "py_eval B m r = Some Raised" by simp
        from run_loop_zero [OF c False s this, of tac out]
        have "run_loop B (line # tac) (m, out) = run_loop B tac (m(x \<mapsto> PInt 0), out)" .
        moreover have "ran (m(x \<mapsto> PInt 0)) \<subseteq> range PInt"
          using m by (auto simp: ran_def)
        ultimately show ?thesis using out by blast
      next
        case (Value v)
        with res obtain n where v: "v = PInt n" by (auto simp: int_result_def)
        with res Value have "py_eval B m r = Some (Value (PInt n))" by simp
        from run_loop_store [OF c False s this, of tac out]
        have "run_loop B (line # tac) (m, out) = run_loop B tac (m(x \<mapsto> PInt n), out)" .
        moreover have "ran (m(x \<mapsto> PInt n)) \<subseteq> range PInt"
          using m by (auto simp: ran_def)
        ultimately show ?thesis using out by blast
      qed
    qed
  next
    case 2
    have c: "contains ''PRINT'' line" unfolding 2(1) by (rule contains_print_line)
    have s: "split_ws line = [''PRINT'', a]"
      unfolding 2(1) using int_operand_word(1,2) [OF 2(2)] by (rule split_ws_print_word)
    from run_loop_print [OF c s, of B tac m out]
    have eq: "run_loop B (line # tac) (m, out) =
        run_loop B tac (m, out @ [case m a of None \<Rightarrow> PInt 0 | Some v \<Rightarrow> v])"
      by simp
    have "set (out @ [case m a of None \<Rightarrow> PInt 0 | Some v \<Rightarrow> v]) \<subseteq> range PInt"
      using printed [of a] out by simp
    with eq m show ?thesis by blast
  qed
qed

lemma run_loop_int_lines:
  assumes "\<forall>line \<in> set tac. int_line B line"
    and "ran m \<subseteq> range PInt" and "set out \<subseteq> range PInt"
  shows "\<exists>m' out'. run_loop B tac (m, out) = Some (Inr (m', out'))
           \<and> ran m' \<subseteq> range PInt \<and> set out' \<subseteq> range PInt"
  using assms
proof (induction tac arbitrary: m out)
  case Nil
  then show ?case by simp
next
  case (Cons line tac)
  from Cons.prems(1) have "int_line B line" by simp
  from run_loop_int_line [OF this Cons.prems(2,3), of tac]
  obtain m' out' where 1: "run_loop B (line # tac) (m, out) = run_loop B tac (m', out')"
    and 2: "ran m' \<subseteq> range PInt" "set out' \<subseteq> range PInt"
    by blast
  from Cons.prems(1) have "\<forall>line \<in> set tac. int_line B line" by simp
  from Cons.IH [OF this 2] 1 show ?case by simp
qed

lemma temp_int_operand:
  assumes "\<forall>k. B (''t'' @ str_nat k) = None"
  shows "int_operand B (''t'' @ str_nat k)"
  using assms temp_identifier [of k] temp_not_reserved [of k]
  by (simp add: int_operand_def python_knows_def)

lemma expr_val_int_operand:
  assumes "int_node B e" and "\<forall>k. B (''t'' @ str_nat k) = None"
  shows "int_operand B (expr_val e tc)"
proof (cases e)
  case (Num n)
  with assms(1) show ?thesis using is_literal_str_int [of n] by (simp add: int_operand_def)
next
  case (Var v)
  with assms(1) show ?thesis by (simp add: int_operand_def)
next
  case (BinOp op l r)
  then show ?thesis using temp_int_operand [OF assms(2)] by simp
qed

lemma expr_lines_int:
  assumes "\<forall>k. B (''t'' @ str_nat k) = None"
  shows "int_node B e \<Longrightarrow> line \<in> set (expr_lines e tc) \<Longrightarrow> int_line B line"
proof (induction e arbitrary: tc)
  case (Num n)
  then show ?case by simp
next
  case (Var v)
  then show ?case by simp
next
  case (BinOp op l r)
  from BinOp.prems(1) have l: "int_node B l" and r: "int_node B r"
    and op: "op \<in> set [''+'', ''-'', ''*'']"
    by simp_all
  define t where "t = expr_val (BinOp op l r) tc"
  define a where "a = expr_val l tc"
  define b where "b = expr_val r (tc + binops l)"
  from BinOp.prems(2) consider "line \<in> set (expr_lines l tc)"
    | "line \<in> set (expr_lines r (tc + binops l))"
    | "line = t @ '' = '' @ a @ '' '' @ op @ '' '' @ b"
    by (auto simp: t_def a_def b_def)
  then show ?case
  proof cases
    case 1
    with BinOp.IH(1) l show ?thesis by blast
  next
    case 2
    with BinOp.IH(2) r show ?thesis by blast
  next
    case 3
    have "int_operand B t" unfolding t_def using temp_int_operand [OF assms] by simp
    then have "CHR '' '' \<notin> set t"
      using operand_chars [OF int_operand_props(1)] by blast
    moreover have "int_operand B a" "int_operand B b"
      unfolding a_def b_def using l r assms by (simp_all add: expr_val_int_operand)
    with op have "int_rhs B (a @ '' '' @ op @ '' '' @ b)" unfolding int_rhs_def by blast
    ultimately show ?thesis unfolding int_line_def 3 by blast
  qed
qed

lemma stmt_lines_int:
  assumes "\<forall>k. B (''t'' @ str_nat k) = None" and "int_stmt B s" and "line \<in> set (stmt_lines s tc)"
  shows "int_line B line"
proof (cases s)
  case (Assign name e)
  with assms(2) have e: "int_node B e" and n: "CHR '' '' \<notin> set name" by simp_all
  from Assign assms(3) consider "line \<in> set (expr_lines e tc)" | "line = name @ '' = '' @ expr_val e tc"
    by auto
  then show ?thesis
  proof cases
    case 1
    with expr_lines_int [OF assms(1) e] show ?thesis by blast
  next
    case 2
    have "int_rhs B (expr_val e tc)"
      using expr_val_int_operand [OF e assms(1)] by (simp add: int_rhs_def)
    with n show ?thesis unfolding int_line_def 2 by blast
  qed
next
  case (Print e)
  with assms(2) have e: "int_node B e" by simp
  from Print assms(3) consider "line \<in> set (expr_lines e tc)" | "line = ''PRINT '' @ expr_val e tc"
    by auto
  then show ?thesis
  proof cases
    case 1
    with expr_lines_int [OF assms(1) e] show ?thesis by blast
  next
    case 2
    show ?thesis unfolding int_line_def 2 using expr_val_int_operand [OF e assms(1)] by blast
  qed
qed

lemma ast_lines_int:
  assumes "\<forall>k. B (''t'' @ str_nat k) = None"
  shows "\<forall>s \<in> set ast. int_stmt B s \<Longrightarrow> line \<in> set (ast_lines ast tc) \<Longrightarrow> int_line B line"
proof (induction ast arbitrary: tc)
  case Nil
  then show ?case by simp
next
  case (Cons s ast)
  from Cons.prems(2) consider "line \<in> set (stmt_lines s tc)"
    | "line \<in> set (ast_lines ast (tc + binops_stmt s))"
    by auto
  then show ?case
  proof cases
    case 1
    from Cons.prems(1) have "int_stmt B s" by simp
    from stmt_lines_int [OF assms this 1] show ?thesis .
  next
    case 2
    from Cons.prems(1) have "\<forall>s \<in> set ast. int_stmt B s" by simp
    from Cons.IH [OF this 2] show ?thesis .
  qed
qed

lemma node_from_int:
  assumes "\<forall>t \<in> set toks. lex_token t"
  shows "node_from toks e \<Longrightarrow> ''/'' \<notin> ops e \<Longrightarrow> \<forall>v \<in> vars e. \<not> python_knows B v
    \<Longrightarrow> int_node B e"
proof (induction e)
  case (Num n)
  then show ?case by simp
next
  case (Var v)
  then have "lex_token v" "v \<noteq> []" "is_ident_start (hd v)" using assms by simp_all
  then have "is_identifier v" by (rule lex_token_identifier)
  with Var.prems(3) show ?case by simp
next
  case (BinOp op l r)
  then show ?case by auto
qed

lemma stmt_from_int:
  assumes "\<forall>t \<in> set toks. lex_token t" and "stmt_from toks s"
    and "''/'' \<notin> ops (stmt_expr s)" and "\<forall>v \<in> vars (stmt_expr s). \<not> python_knows B v"
  shows "int_stmt B s"
proof (cases s)
  case (Assign name e)
  with assms(2) have "name \<in> set toks" by simp
  with assms(1) have "CHR '' '' \<notin> set name" using lex_token_no_space by blast
  with Assign assms node_from_int [OF assms(1), of e B] show ?thesis by simp
next
  case (Print e)
  with assms node_from_int [OF assms(1), of e B] show ?thesis by simp
qed

text \<open>
  Claim C3, as amended. A program that the parser accepts, that does not use \<open>/\<close> and
  whose expressions mention no name that Python knows by itself (no keyword, no constant,
  no builtin; the temporaries \<open>t1\<close>, \<open>t2\<close>, \<dots> are no builtins either) runs to
  the end, and then every value in the memory and every printed value is an integer.
\<close>

theorem integers_without_division:
  assumes "parse (tokenize code) = Some (Inr ast)"
    and "''/'' \<notin> ops_ast ast"
    and "\<forall>v \<in> vars_ast ast. \<not> python_knows builtins v"
    and "\<forall>k. builtins (''t'' @ str_nat k) = None"
  shows "\<exists>memory printed. main builtins code = Some (Inr (memory, printed))
           \<and> ran memory \<subseteq> range PInt \<and> set printed \<subseteq> range PInt"
proof -
  have toks: "\<forall>t \<in> set (tokenize code). lex_token t" using tokenize_tokens by blast
  have "int_stmt builtins s" if "s \<in> set ast" for s
  proof (rule stmt_from_int [OF toks])
    show "stmt_from (tokenize code) s" using assms(1) that by (rule parse_from)
    show "''/'' \<notin> ops (stmt_expr s)" using assms(2) that by (auto simp: ops_ast_def)
    show "\<forall>v \<in> vars (stmt_expr s). \<not> python_knows builtins v"
      using assms(3) that by (auto simp: vars_ast_def)
  qed
  then have "\<forall>line \<in> set (ast_lines ast 0). int_line builtins line"
    using ast_lines_int [OF assms(4)] by blast
  then obtain memory printed
    where r: "run_loop builtins (ast_lines ast 0) (Map.empty, []) = Some (Inr (memory, printed))"
      and i: "ran memory \<subseteq> range PInt" "set printed \<subseteq> range PInt"
    using run_loop_int_lines [of "ast_lines ast 0" builtins Map.empty "[]"] by auto
  have c: "compile_tac code = Some (Inr (ast_lines ast 0))"
    using assms(1) by (simp add: compile_tac_def generate_TAC_eq)
  have a: "generate_ASM (ast_lines ast 0) = Inr (concat (map asm_of_line (ast_lines ast 0)))"
    using generate_ASM_of_parsed [OF assms(1), of 0] by (simp add: generate_TAC_eq)
  have "main builtins code = run builtins (ast_lines ast 0)" using c a by (rule main_eq)
  with r i show ?thesis by (auto simp: run_def)
qed

text \<open>The theorem at the program \<open>let x = 2 * 3 - y; print(x + 1);\<close>.\<close>

theorem integers_without_division_witness:
  "case main few_builtins ''let x = 2 * 3 - y; print(x + 1);'' of
     Some (Inr (memory, printed)) \<Rightarrow> ran memory \<subseteq> range PInt \<and> set printed \<subseteq> range PInt
   | _ \<Rightarrow> False"
proof -
  define ast where "ast = [Assign ''x'' (BinOp ''-'' (BinOp ''*'' (Num 2) (Num 3)) (Var ''y'')),
    Print (BinOp ''+'' (Var ''x'') (Num 1))]"
  have p: "parse (tokenize ''let x = 2 * 3 - y; print(x + 1);'') = Some (Inr ast)"
    unfolding ast_def by code_simp
  have o: "''/'' \<notin> ops_ast ast" unfolding ast_def by (simp add: ops_ast_def)
  have "\<not> python_knows few_builtins ''x''" "\<not> python_knows few_builtins ''y''" by code_simp+
  then have v: "\<forall>v \<in> vars_ast ast. \<not> python_knows few_builtins v"
    unfolding ast_def by (simp add: vars_ast_def)
  have t: "\<forall>k. few_builtins (''t'' @ str_nat k) = None" by (simp add: few_builtins_def)
  from integers_without_division [OF p o v t] show ?thesis by auto
qed

text \<open>
  Claim C3 as stated holds the program \<open>let x = 5 / 2; print(x);\<close> to store and print
  integers. Python's \<open>/\<close> on two integers gives a float: the memory holds the float
  2.5 for \<open>t1\<close> and for \<open>x\<close>, and 2.5 is printed.
\<close>

theorem division_gives_float_counterexample:
  "main few_builtins ''let x = 5 / 2; print(x);'' =
     Some (Inr ([''t1'' \<mapsto> PFloat 5 2, ''x'' \<mapsto> PFloat 5 2], [PFloat 5 2]))"
proof -
  have c: "compile_tac ''let x = 5 / 2; print(x);'' = Some (Inr [''t1 = 5 / 2'', ''x = t1'', ''PRINT x''])"
    by code_simp
  have a: "generate_ASM [''t1 = 5 / 2'', ''x = t1'', ''PRINT x''] =
      Inr [''LOAD 5 / 2'', ''STORE t1'', ''LOAD t1'', ''STORE x'', ''LOAD x'', ''OUT'']"
    by code_simp
  have "main few_builtins ''let x = 5 / 2; print(x);'' = run few_builtins [''t1 = 5 / 2'', ''x = t1'', ''PRINT x'']"
    using c a by (rule main_eq)
  also have "\<dots> = run_loop few_builtins [''x = t1'', ''PRINT x''] ([''t1'' \<mapsto> PFloat 5 2], [])"
    unfolding run_def
  proof (rule run_loop_store)
    show "contains ''='' ''t1 = 5 / 2''" by code_simp
    show "\<not> contains ''PRINT'' ''t1 = 5 / 2''" by code_simp
    show "split_sep '' = '' [] ''t1 = 5 / 2'' = [''t1'', ''5 / 2'']" by code_simp
    show "py_eval few_builtins Map.empty ''5 / 2'' = Some (Value (PFloat 5 2))" by code_simp
  qed
  also have "\<dots> = run_loop few_builtins [''PRINT x''] ([''t1'' \<mapsto> PFloat 5 2, ''x'' \<mapsto> PFloat 5 2], [])"
  proof (rule run_loop_store)
    show "contains ''='' ''x = t1''" by code_simp
    show "\<not> contains ''PRINT'' ''x = t1''" by code_simp
    show "split_sep '' = '' [] ''x = t1'' = [''x'', ''t1'']" by code_simp
    have "py_eval B m ''t1'' =
        Some (case m ''t1'' of Some v \<Rightarrow> Value v
              | None \<Rightarrow> (case B ''t1'' of Some v \<Rightarrow> Value v | None \<Rightarrow> Raised))" for B m
      by code_simp
    then show "py_eval few_builtins [''t1'' \<mapsto> PFloat 5 2] ''t1'' = Some (Value (PFloat 5 2))" by simp
  qed
  also have "\<dots> = run_loop few_builtins [] ([''t1'' \<mapsto> PFloat 5 2, ''x'' \<mapsto> PFloat 5 2], [] @ [PFloat 5 2])"
  proof -
    have "contains ''PRINT'' ''PRINT x''" by code_simp
    moreover have "split_ws ''PRINT x'' = [''PRINT'', ''x'']" by code_simp
    ultimately have "run_loop few_builtins [''PRINT x''] ([''t1'' \<mapsto> PFloat 5 2, ''x'' \<mapsto> PFloat 5 2], []) =
        run_loop few_builtins [] ([''t1'' \<mapsto> PFloat 5 2, ''x'' \<mapsto> PFloat 5 2],
          [] @ [case [''t1'' \<mapsto> PFloat 5 2, ''x'' \<mapsto> PFloat 5 2] ([''PRINT'', ''x''] ! 1) of
                  None \<Rightarrow> PInt 0 | Some v \<Rightarrow> v])"
      by (rule run_loop_print) simp
    then show ?thesis by simp
  qed
  finally show ?thesis by simp
qed

end
